theory Spec2Isabelle
  imports Main "HOL-Library.AList" "HOL-Library.Sublist"
begin

section \<open>RPC discovery and liveness probing (src/lib/rpc-utils.ts)\<close>

text \<open>
  The three exported functions of the module, as functions of what the network returns:
  \<^item> fetchChainData fetches a script, cuts the object literal out of it, rewrites it
    towards JSON with four regular-expression replacements, parses it, and derives the
    network list and the explorer map;
  \<^item> fetchRpcData searches a second script, by regular expressions built from each chain
    ID, for the endpoint URLs of each network;
  \<^item> findWorkingRpc probes a list of endpoints and picks one.

  Each regular expression of the source is written out as the matcher it denotes, with the
  backtracking that decides its result. The network is a parameter: what each \<open>fetch\<close>
  ends in, and the order in which concurrent probes settle.
\<close>

subsection \<open>JavaScript strings, numbers and objects\<close>

text \<open>
  A string is a list of characters, each one code unit in the range 0 to 255. The
  character classes of the regular expressions, restricted to that range.
\<close>

definition is_space :: "char \<Rightarrow> bool" where
  \<comment> \<open>\<open>\s\<close>, and the white space \<open>parseInt\<close> skips\<close>
  "is_space c \<longleftrightarrow> c \<in> {CHR 0x09, CHR 0x0A, CHR 0x0B, CHR 0x0C, CHR 0x0D, CHR 0x20, CHR 0xA0}"

definition is_line_end :: "char \<Rightarrow> bool" where
  \<comment> \<open>the line terminators: what \<open>.\<close> does not match and \<open>$\<close> stands before\<close>
  "is_line_end c \<longleftrightarrow> c \<in> {CHR 0x0A, CHR 0x0D}"

definition is_digit :: "char \<Rightarrow> bool" where
  "is_digit c \<longleftrightarrow> c \<in> set ''0123456789''"

definition is_word :: "char \<Rightarrow> bool" where
  \<comment> \<open>\<open>[a-zA-Z0-9_]\<close>\<close>
  "is_word c \<longleftrightarrow> c \<in> set ''abcdefghijklmnopqrstuvwxyzABCDEFGHIJKLMNOPQRSTUVWXYZ0123456789_''"

definition is_quote :: "char \<Rightarrow> bool" where
  \<comment> \<open>\<open>['"]\<close>\<close>
  "is_quote c \<longleftrightarrow> c = CHR 0x27 \<or> c = CHR 0x22"

definition decimal_value :: "string \<Rightarrow> nat" where
  "decimal_value s = foldl (\<lambda>n c. 10 * n + (of_char c - 48)) 0 s"

fun show_nat :: "nat \<Rightarrow> string" where
  "show_nat n =
     (if n < 10 then [''0123456789'' ! n]
      else show_nat (n div 10) @ [''0123456789'' ! (n mod 10)])"

declare show_nat.simps [simp del]

text \<open>The decimal numerals of the natural numbers: digits only, no leading zero.\<close>

definition decimal_numeral :: "string \<Rightarrow> bool" where
  "decimal_numeral s \<longleftrightarrow> s \<noteq> [] \<and> list_all is_digit s \<and> (s = ''0'' \<or> hd s \<noteq> CHR ''0'')"

text \<open>
  A number is a double. The code only makes numbers with \<open>parseInt\<close>, so a number
  here is \<open>NaN\<close>, an infinity, or \<open>Finite n\<close> for an integer \<open>n\<close> that a double holds
  exactly (the zero stands for both zeros).

  Rounding a natural number to the nearest double, ties to the even significand: the
  significand keeps 53 bits, \<open>binary_exponent\<close> counts the bits dropped below them, and
  what reaches \<open>2^1024\<close> is infinite.
\<close>

datatype js_number = NaN | Finite int | PosInfinity | NegInfinity

fun binary_exponent :: "nat \<Rightarrow> nat" where
  "binary_exponent n = (if n < 9007199254740992 then 0 else Suc (binary_exponent (n div 2)))"

declare binary_exponent.simps [simp del]

definition round_at :: "nat \<Rightarrow> nat \<Rightarrow> nat" where
  "round_at e n =
     (if 2 ^ e < 2 * (n mod 2 ^ e) \<or> (2 * (n mod 2 ^ e) = 2 ^ e \<and> odd (n div 2 ^ e))
      then (n div 2 ^ e + 1) * 2 ^ e else (n div 2 ^ e) * 2 ^ e)"

definition nearest_double :: "nat \<Rightarrow> nat option" where
  "nearest_double n =
     (if round_at (binary_exponent n) n < 2 ^ 1024 then Some (round_at (binary_exponent n) n)
      else None)"

text \<open>
  \<open>parseInt(s, 10)\<close>: leading white space, a sign, then the longest run of digits; no
  digit gives \<open>NaN\<close>, and the integer the digits denote is rounded to a double. (Past the
  twentieth significant digit the standard lets an implementation replace digits by
  zeros; the model keeps them, as the engines do.)
\<close>

definition parseInt10 :: "string \<Rightarrow> js_number" where
  "parseInt10 s =
     (let t = dropWhile is_space s;
          neg = (case t of [] \<Rightarrow> False | c # r \<Rightarrow> c = CHR ''-'');
          u = (case t of [] \<Rightarrow> [] | c # r \<Rightarrow> if c = CHR ''-'' \<or> c = CHR ''+'' then r else t);
          ds = takeWhile is_digit u
      in if ds = [] then NaN
         else (case nearest_double (decimal_value ds) of
                 None \<Rightarrow> if neg then NegInfinity else PosInfinity
               | Some v \<Rightarrow> Finite (if neg then - int v else int v)))"

text \<open>
  \<open>Number.prototype.toString\<close> prints the shortest decimal digits that round to the
  double, and among those of that length the closest (the even one on a tie).
  With \<open>p\<close> a power of ten, \<open>candidate x p\<close> is the multiple of \<open>p\<close> next to \<open>x\<close> that
  rounds to \<open>x\<close>, if one does; \<open>shortest_from\<close> tries the powers from the highest down,
  so the first hit has the fewest significant digits. Up to 21 digits the number is printed
  in full, beyond that in exponent form.
\<close>

definition candidate :: "nat \<Rightarrow> nat \<Rightarrow> nat option" where
  "candidate x p =
     (if nearest_double ((x div p) * p) = Some x
      then (if nearest_double ((x div p) * p + p) = Some x
            then (if x - (x div p) * p < (x div p) * p + p - x then Some ((x div p) * p)
                  else if (x div p) * p + p - x < x - (x div p) * p then Some ((x div p) * p + p)
                  else if even (x div p) then Some ((x div p) * p) else Some ((x div p) * p + p))
            else Some ((x div p) * p))
      else if nearest_double ((x div p) * p + p) = Some x then Some ((x div p) * p + p)
      else None)"

fun shortest_from :: "nat \<Rightarrow> nat \<Rightarrow> nat" where
  "shortest_from x j =
     (if j = 0 then x
      else (case candidate x (10 ^ j) of Some v \<Rightarrow> v | None \<Rightarrow> shortest_from x (j - 1)))"

declare shortest_from.simps [simp del]

definition exponent_form :: "string \<Rightarrow> string" where
  "exponent_form ds =
     (case rev (dropWhile (\<lambda>c. c = CHR ''0'') (rev ds)) of
        [] \<Rightarrow> []
      | d # more \<Rightarrow>
          (if more = [] then [d] else d # CHR ''.'' # more) @ ''e+'' @ show_nat (length ds - 1))"

definition double_digits :: "nat \<Rightarrow> string" where
  "double_digits x =
     (if length (show_nat (shortest_from x (length (show_nat x) - 1))) \<le> 21
      then show_nat (shortest_from x (length (show_nat x) - 1))
      else exponent_form (show_nat (shortest_from x (length (show_nat x) - 1))))"

definition Number_toString :: "js_number \<Rightarrow> string" where
  "Number_toString x =
     (case x of
        NaN \<Rightarrow> ''NaN''
      | Finite n \<Rightarrow> if n < 0 then CHR ''-'' # double_digits (nat (- n)) else double_digits (nat n)
      | PosInfinity \<Rightarrow> ''Infinity''
      | NegInfinity \<Rightarrow> ''-Infinity'')"

text \<open>
  An object is the list of its own properties in the order of their creation, with distinct
  keys. Enumeration (\<open>Object.entries\<close>, \<open>Object.values\<close>) gives the array indices first,
  in ascending numeric order, then the other keys in creation order.
\<close>

type_synonym 'v js_object = "(string \<times> 'v) list"

definition is_array_index :: "string \<Rightarrow> bool" where
  \<comment> \<open>the canonical decimal numeral of an integer from 0 to \<open>2^32 - 2\<close>\<close>
  "is_array_index k \<longleftrightarrow>
     k \<noteq> [] \<and> list_all is_digit k \<and> (k = ''0'' \<or> hd k \<noteq> CHR ''0'') \<and> decimal_value k < 4294967295"

definition Object_entries :: "'v js_object \<Rightarrow> (string \<times> 'v) list" where
  "Object_entries obj =
     sort_key (\<lambda>p. decimal_value (fst p)) (filter (\<lambda>p. is_array_index (fst p)) obj) @
     filter (\<lambda>p. \<not> is_array_index (fst p)) obj"

definition Object_values :: "'v js_object \<Rightarrow> 'v list" where
  "Object_values obj = map snd (Object_entries obj)"

text \<open>
  The assignment \<open>obj[k] = v\<close> on an object created by the literal \<open>{}\<close>: an existing
  property keeps its place and takes the new value, a new one is added last. The key
  \<open>__proto__\<close> names the accessor inherited from \<open>Object.prototype\<close>, so assigning to it
  creates no own property: a string or a number is ignored, an object becomes the prototype.
\<close>

definition assign :: "'v js_object \<Rightarrow> string \<Rightarrow> 'v \<Rightarrow> 'v js_object" where
  "assign obj k v = (if k = ''__proto__'' then obj else AList.update k v obj)"

text \<open>A \<open>Set\<close>, as the list of its elements in insertion order.\<close>

definition Set_add :: "'a list \<Rightarrow> 'a \<Rightarrow> 'a list" where
  "Set_add s v = (if v \<in> set s then s else s @ [v])"

fun strip_prefix :: "string \<Rightarrow> string \<Rightarrow> string option" where
  "strip_prefix [] s = Some s"
| "strip_prefix (p # ps) [] = None"
| "strip_prefix (p # ps) (c # cs) = (if p = c then strip_prefix ps cs else None)"

definition startsWith :: "string \<Rightarrow> string \<Rightarrow> bool" where
  "startsWith s p \<longleftrightarrow> strip_prefix p s \<noteq> None"

fun includes_str :: "string \<Rightarrow> string \<Rightarrow> bool" where
  "includes_str [] p = (p = [])"
| "includes_str (c # cs) p = (startsWith (c # cs) p \<or> includes_str cs p)"

fun indexOf :: "string \<Rightarrow> char \<Rightarrow> int" where
  "indexOf [] x = - 1"
| "indexOf (c # cs) x = (if c = x then 0 else (let i = indexOf cs x in if i = - 1 then - 1 else i + 1))"

fun lastIndexOf :: "string \<Rightarrow> char \<Rightarrow> int" where
  "lastIndexOf [] x = - 1"
| "lastIndexOf (c # cs) x =
     (let i = lastIndexOf cs x in if i \<noteq> - 1 then i + 1 else if c = x then 0 else - 1)"

definition substring :: "string \<Rightarrow> int \<Rightarrow> int \<Rightarrow> string" where
  \<comment> \<open>both indices are clamped to the string, and swapped when the first is the larger\<close>
  "substring s a b =
     (let n = int (length s);
          a' = min (max a 0) n;
          b' = min (max b 0) n
      in take (nat (max a' b') - nat (min a' b')) (drop (nat (min a' b')) s))"

subsection \<open>The regular expressions\<close>

text \<open>
  \<open>replace\<close> with a global regular expression, and the \<open>exec\<close> loop of one: the matcher
  is tried at each position from the left; where it matches, it gives its result and the
  input after the match, and the search goes on from there. Every pattern of the source
  consumes at least one character, so the rest is shorter than the input: the length
  test always holds for them, and it is what makes the recursion terminate.
\<close>

fun replace_all :: "(string \<Rightarrow> (string \<times> string) option) \<Rightarrow> string \<Rightarrow> string" where
  "replace_all m [] = []"
| "replace_all m (c # cs) =
     (case m (c # cs) of
        None \<Rightarrow> c # replace_all m cs
      | Some (new, rest) \<Rightarrow>
          if length rest \<le> length cs then new @ replace_all m rest else c # replace_all m cs)"

fun exec_all :: "(string \<Rightarrow> ('a \<times> string) option) \<Rightarrow> string \<Rightarrow> 'a list" where
  "exec_all m [] = []"
| "exec_all m (c # cs) =
     (case m (c # cs) of
        None \<Rightarrow> exec_all m cs
      | Some (x, rest) \<Rightarrow>
          if length rest \<le> length cs then x # exec_all m rest else exec_all m cs)"

text \<open>\<open>String.prototype.match\<close> with a regular expression that is not global: the leftmost match.\<close>

fun first_match :: "(string \<Rightarrow> 'a option) \<Rightarrow> string \<Rightarrow> 'a option" where
  "first_match m [] = m []"
| "first_match m (c # cs) = (case m (c # cs) of Some r \<Rightarrow> Some r | None \<Rightarrow> first_match m cs)"


text \<open>
  A quoted run: the delimiter, one or more characters that are not closing delimiters, a
  closing delimiter. The run is greedy, and a shorter run would stop before a character
  that is not a delimiter, so the longest run decides.
\<close>

definition quoted :: "(char \<Rightarrow> bool) \<Rightarrow> (char \<Rightarrow> bool) \<Rightarrow> string \<Rightarrow> (string \<times> string) option" where
  "quoted opening closing s =
     (case s of
        [] \<Rightarrow> None
      | c # cs \<Rightarrow>
          if \<not> opening c then None
          else (case dropWhile (\<lambda>x. \<not> closing x) cs of
                  [] \<Rightarrow> None
                | q # rest \<Rightarrow>
                    if takeWhile (\<lambda>x. \<not> closing x) cs = [] then None
                    else Some (takeWhile (\<lambda>x. \<not> closing x) cs, rest)))"

definition stringRpcRegex :: "string \<Rightarrow> (string \<times> string) option" where
  \<comment> \<open>\<open>/'([^']+)'/g\<close>\<close>
  "stringRpcRegex = quoted (\<lambda>c. c = CHR 0x27) (\<lambda>c. c = CHR 0x27)"

definition objectRpcRegex :: "string \<Rightarrow> (string \<times> string) option" where
  \<comment> \<open>\<open>/url:\s*'([^']+)'/g\<close>\<close>
  "objectRpcRegex s =
     (case strip_prefix ''url:'' s of
        None \<Rightarrow> None
      | Some r \<Rightarrow> quoted (\<lambda>c. c = CHR 0x27) (\<lambda>c. c = CHR 0x27) (dropWhile is_space r))"

definition doubleQuoteRpcRegex :: "string \<Rightarrow> (string \<times> string) option" where
  \<comment> \<open>\<open>/"([^"]+)"/g\<close>\<close>
  "doubleQuoteRpcRegex = quoted (\<lambda>c. c = CHR 0x22) (\<lambda>c. c = CHR 0x22)"

text \<open>
  The two patterns built from a chain ID share their head, \<open>${chainIdStr}:\s*{[^}]*\<close>.
  The run \<open>[^}]*\<close> is greedy: the longest run is tried first and given back one
  character at a time until the rest of the pattern matches.
\<close>

fun body_then :: "(string \<Rightarrow> 'a option) \<Rightarrow> string \<Rightarrow> 'a option" where
  "body_then rest_of [] = rest_of []"
| "body_then rest_of (c # cs) =
     (if c = CHR ''}'' then rest_of (c # cs)
      else (case body_then rest_of cs of Some r \<Rightarrow> Some r | None \<Rightarrow> rest_of (c # cs)))"

text \<open>
  The chain ID is pasted into the source of the pattern as it is, so its characters are
  read as a pattern: a dot matches any character (the pattern has the flag \<open>s\<close>), a plus
  repeats the character before it, every other character of a printed number stands for
  itself. A printed number has a plus only in \<open>e+\<close>, followed by a digit, so the greedy
  run of \<open>e\<close> never has to give a character back.
\<close>

fun match_source :: "string \<Rightarrow> string \<Rightarrow> string option" where
  "match_source [] s = Some s"
| "match_source (p # ps) s =
     (case s of
        [] \<Rightarrow> None
      | c # cs \<Rightarrow>
          if \<not> (p = CHR ''.'' \<or> c = p) then None
          else (case ps of
                  [] \<Rightarrow> Some cs
                | p' # ps' \<Rightarrow>
                    if p' = CHR ''+'' then match_source ps' (dropWhile (\<lambda>x. x = p) cs)
                    else match_source ps cs))"

definition entry_at :: "string \<Rightarrow> (string \<Rightarrow> 'a option) \<Rightarrow> string \<Rightarrow> 'a option" where
  "entry_at chainIdStr rest_of s =
     (case match_source (chainIdStr @ '':'') s of
        None \<Rightarrow> None
      | Some r \<Rightarrow>
          (case dropWhile is_space r of
             [] \<Rightarrow> None
           | c # body \<Rightarrow> if c = CHR ''{'' then body_then rest_of body else None))"

definition rpcs_field :: "string \<Rightarrow> string option" where
  \<comment> \<open>\<open>rpcs:\s*\[([^\]]+)\]\<close>, giving the captured group\<close>
  "rpcs_field s =
     (case strip_prefix ''rpcs:'' s of
        None \<Rightarrow> None
      | Some r \<Rightarrow>
          map_option fst
            (quoted (\<lambda>c. c = CHR ''['') (\<lambda>c. c = CHR '']'') (dropWhile is_space r)))"

definition name_field :: "string \<Rightarrow> string option" where
  \<comment> \<open>\<open>name:\s*["']([^"']+)["']\<close>, giving the captured group\<close>
  "name_field s =
     (case strip_prefix ''name:'' s of
        None \<Rightarrow> None
      | Some r \<Rightarrow> map_option fst (quoted is_quote is_quote (dropWhile is_space r)))"

definition rpcs_regex :: "string \<Rightarrow> string \<Rightarrow> string option" where
  \<comment> \<open>\<open>text.match(regex)\<close>, then \<open>match[1]\<close>\<close>
  "rpcs_regex chainIdStr text = first_match (entry_at chainIdStr rpcs_field) text"

definition name_regex :: "string \<Rightarrow> string \<Rightarrow> string option" where
  "name_regex chainIdStr text = first_match (entry_at chainIdStr name_field) text"

text \<open>The four replacements of extractObject.\<close>

definition line_comment :: "string \<Rightarrow> (string \<times> string) option" where
  \<comment> \<open>\<open>/\/\/.*$/gm\<close> replaced by the empty string\<close>
  "line_comment s =
     (case strip_prefix ''//'' s of
        None \<Rightarrow> None
      | Some r \<Rightarrow> Some ([], dropWhile (\<lambda>c. \<not> is_line_end c) r))"

definition trailing_comma :: "string \<Rightarrow> (string \<times> string) option" where
  \<comment> \<open>\<open>/,(\s*[}\]])/g\<close> replaced by \<open>$1\<close>\<close>
  "trailing_comma s =
     (case s of
        [] \<Rightarrow> None
      | c # cs \<Rightarrow>
          if c \<noteq> CHR '','' then None
          else (case dropWhile is_space cs of
                  [] \<Rightarrow> None
                | b # rest \<Rightarrow>
                    if b = CHR ''}'' \<or> b = CHR '']'' then Some (takeWhile is_space cs @ [b], rest)
                    else None))"

text \<open>
  The pattern \<open>/(['"])?([a-zA-Z0-9_]+)(['"])?:/g\<close>, replaced by \<open>"$2":\<close>. After the
  optional opening quote: the longest run of word characters (a shorter run would stop
  before a word character, where neither a quote nor the colon can follow), an optional
  quote, the colon. When the text starts with a quote and the rest fails after it, the
  pattern without the optional quote fails too, since a quote is no word character.
\<close>

definition word_then_colon :: "string \<Rightarrow> (string \<times> string) option" where
  "word_then_colon s1 =
     (let key = takeWhile is_word s1;
          s2 = dropWhile is_word s1;
          s3 = (case s2 of [] \<Rightarrow> [] | c # cs \<Rightarrow> if is_quote c then cs else s2)
      in if key = [] then None
         else (case s3 of
                 [] \<Rightarrow> None
               | c # rest \<Rightarrow>
                   if c = CHR '':'' then Some ([CHR 0x22] @ key @ [CHR 0x22, CHR '':''], rest)
                   else None))"

definition bare_key :: "string \<Rightarrow> (string \<times> string) option" where
  "bare_key s = word_then_colon (case s of [] \<Rightarrow> [] | c # cs \<Rightarrow> if is_quote c then cs else s)"

definition to_json_text :: "string \<Rightarrow> string" where
  "to_json_text objStr =
     map (\<lambda>c. if c = CHR 0x27 then CHR 0x22 else c)
       (replace_all bare_key (replace_all trailing_comma (replace_all line_comment objStr)))"

subsection \<open>JSON.parse\<close>

text \<open>
  What a call ends in: a value, a thrown error, or a behaviour this model does not
  determine.
\<close>

datatype js_error = Error string | SyntaxError

datatype 'a outcome = Returns 'a | Throws js_error | Unmodelled

text \<open>
  \<open>JSON.parse\<close> is modelled on the documents the code is written for: one object whose
  member values are strings without escape sequences. On such a document it returns the
  members; where the text cannot be JSON at all it throws \<open>SyntaxError\<close>. Everything else
  (another kind of value at the top or in a member, a backslash in a string) is
  \<open>Unmodelled\<close>. The parser reads the text once, left to right, in these states.
\<close>

datatype json_state =
  Start | Opened | InKey string | AfterKey string | BeforeValue string
  | InValue string string | AfterValue | AfterComma | Closed

definition is_json_space :: "char \<Rightarrow> bool" where
  "is_json_space c \<longleftrightarrow> c \<in> {CHR 0x09, CHR 0x0A, CHR 0x0D, CHR 0x20}"

fun json_run :: "json_state \<Rightarrow> (string \<times> string) list \<Rightarrow> string \<Rightarrow> (string \<times> string) list outcome" where
  "json_run st ms [] = (if st = Closed then Returns ms else Throws SyntaxError)"
| "json_run Start ms (c # cs) =
     (if is_json_space c then json_run Start ms cs
      else if c = CHR ''{'' then json_run Opened ms cs
      else Unmodelled)"
| "json_run Opened ms (c # cs) =
     (if is_json_space c then json_run Opened ms cs
      else if c = CHR 0x22 then json_run (InKey []) ms cs
      else if c = CHR ''}'' then json_run Closed ms cs
      else Throws SyntaxError)"
| "json_run (InKey k) ms (c # cs) =
     (if c = CHR 0x22 then json_run (AfterKey k) ms cs
      else if c = CHR 0x5C then Unmodelled
      else if (of_char c :: nat) < 32 then Throws SyntaxError
      else json_run (InKey (k @ [c])) ms cs)"
| "json_run (AfterKey k) ms (c # cs) =
     (if is_json_space c then json_run (AfterKey k) ms cs
      else if c = CHR '':'' then json_run (BeforeValue k) ms cs
      else Throws SyntaxError)"
| "json_run (BeforeValue k) ms (c # cs) =
     (if is_json_space c then json_run (BeforeValue k) ms cs
      else if c = CHR 0x22 then json_run (InValue k []) ms cs
      else Unmodelled)"
| "json_run (InValue k v) ms (c # cs) =
     (if c = CHR 0x22 then json_run AfterValue (ms @ [(k, v)]) cs
      else if c = CHR 0x5C then Unmodelled
      else if (of_char c :: nat) < 32 then Throws SyntaxError
      else json_run (InValue k (v @ [c])) ms cs)"
| "json_run AfterValue ms (c # cs) =
     (if is_json_space c then json_run AfterValue ms cs
      else if c = CHR '','' then json_run AfterComma ms cs
      else if c = CHR ''}'' then json_run Closed ms cs
      else Throws SyntaxError)"
| "json_run AfterComma ms (c # cs) =
     (if is_json_space c then json_run AfterComma ms cs
      else if c = CHR 0x22 then json_run (InKey []) ms cs
      else Throws SyntaxError)"
| "json_run Closed ms (c # cs) =
     (if is_json_space c then json_run Closed ms cs else Throws SyntaxError)"

text \<open>
  The object is built member by member: a repeated key keeps its first place and takes
  the last value.
\<close>

definition JSON_parse :: "string \<Rightarrow> string js_object outcome" where
  "JSON_parse s =
     (case json_run Start [] s of
        Returns ms \<Rightarrow> Returns (foldl (\<lambda>obj (k, v). AList.update k v obj) [] ms)
      | Throws e \<Rightarrow> Throws e
      | Unmodelled \<Rightarrow> Unmodelled)"

subsection \<open>fetchChainData\<close>

text \<open>
  The inner function extractObject. Its \<open>catch\<close> turns every error into the empty
  object. \<open>endIdx\<close> is \<open>lastIndexOf + 1\<close>, so it is 0 and not \<open>-1\<close> when there is no
  closing brace.
\<close>

definition extractObject :: "string \<Rightarrow> string js_object outcome" where
  "extractObject content =
     (let startIdx = indexOf content CHR ''{'';
          endIdx = lastIndexOf content CHR ''}'' + 1
      in if startIdx = - 1 \<or> endIdx = - 1 then Returns []
         else (case JSON_parse (to_json_text (substring content startIdx endIdx)) of
                 Returns obj \<Rightarrow> Returns obj
               | Throws e \<Rightarrow> Returns []
               | Unmodelled \<Rightarrow> Unmodelled))"

text \<open>
  Object literals of the shape the replacements are written for. Between the tokens stand
  gaps: white space of JSON and line comments, each comment closed by a line terminator.
  An entry is a gap, the key (word characters; bare or in single or double quotes), the
  colon right after the key, a gap, the value in single or double quotes, a gap. Entries
  are separated by commas; a comma may follow the last entry; a gap stands before the
  closing brace.
\<close>

datatype gap_piece = Blank char | LineComment string char

fun piece_text :: "gap_piece \<Rightarrow> string" where
  "piece_text (Blank c) = [c]"
| "piece_text (LineComment t e) = ''//'' @ t @ [e]"

definition gap_text :: "gap_piece list \<Rightarrow> string" where
  "gap_text g = concat (map piece_text g)"

fun piece_ok :: "gap_piece \<Rightarrow> bool" where
  "piece_ok (Blank c) = is_json_space c"
| "piece_ok (LineComment t e) = (is_line_end e \<and> list_all (\<lambda>c. \<not> is_line_end c) t)"

datatype quote = Single | Double

fun quote_char :: "quote \<Rightarrow> char" where
  "quote_char Single = CHR 0x27"
| "quote_char Double = CHR 0x22"

fun key_text :: "quote option \<Rightarrow> string \<Rightarrow> string" where
  "key_text None k = k"
| "key_text (Some q) k = quote_char q # k @ [quote_char q]"

definition value_text :: "quote \<Rightarrow> string \<Rightarrow> string" where
  "value_text q v = quote_char q # v @ [quote_char q]"

datatype entry = Entry "gap_piece list" "quote option" string "gap_piece list" quote string "gap_piece list"

fun entry_text :: "entry \<Rightarrow> string" where
  "entry_text (Entry g1 kq k g2 vq v g3) =
     gap_text g1 @ key_text kq k @ '':'' @ gap_text g2 @ value_text vq v @ gap_text g3"

fun entry_pair :: "entry \<Rightarrow> string \<times> string" where
  "entry_pair (Entry g1 kq k g2 vq v g3) = (k, v)"

fun body_text :: "entry list \<Rightarrow> bool \<Rightarrow> string" where
  "body_text [] trailing = []"
| "body_text [e] trailing = entry_text e @ (if trailing then '','' else [])"
| "body_text (e # e' # es) trailing = entry_text e @ '','' @ body_text (e' # es) trailing"

definition literal_text :: "entry list \<Rightarrow> bool \<Rightarrow> gap_piece list \<Rightarrow> string" where
  "literal_text es trailing g = ''{'' @ body_text es trailing @ gap_text g @ ''}''"

text \<open>
  The characters of a value: no quote, backslash, slash, comma or colon, and no control
  character.
\<close>

definition value_char :: "char \<Rightarrow> bool" where
  "value_char c \<longleftrightarrow>
     c \<notin> {CHR 0x27, CHR 0x22, CHR 0x5C, CHR ''/'', CHR '','', CHR '':''} \<and> 32 \<le> (of_char c :: nat)"

fun entry_ok :: "entry \<Rightarrow> bool" where
  "entry_ok (Entry g1 kq k g2 vq v g3) \<longleftrightarrow>
     list_all piece_ok g1 \<and> list_all piece_ok g2 \<and> list_all piece_ok g3 \<and>
     k \<noteq> [] \<and> list_all is_word k \<and> list_all value_char v"

text \<open>
  What the replacements make of such a literal, step by step: a comment leaves its line
  terminator, every key comes out in double quotes, every value too.
\<close>

fun blank_piece :: "gap_piece \<Rightarrow> gap_piece" where
  "blank_piece (Blank c) = Blank c"
| "blank_piece (LineComment t e) = Blank e"

fun is_blank :: "gap_piece \<Rightarrow> bool" where
  "is_blank (Blank c) = is_json_space c"
| "is_blank (LineComment t e) = False"

fun without_comments :: "entry \<Rightarrow> entry" where
  "without_comments (Entry g1 kq k g2 vq v g3) =
     Entry (map blank_piece g1) kq k (map blank_piece g2) vq v (map blank_piece g3)"

fun with_double_key :: "entry \<Rightarrow> entry" where
  "with_double_key (Entry g1 kq k g2 vq v g3) = Entry g1 (Some Double) k g2 vq v g3"

fun with_double_value :: "entry \<Rightarrow> entry" where
  "with_double_value (Entry g1 kq k g2 vq v g3) = Entry g1 kq k g2 Double v g3"

fun entry_blank :: "entry \<Rightarrow> bool" where
  "entry_blank (Entry g1 kq k g2 vq v g3) \<longleftrightarrow>
     list_all is_blank g1 \<and> list_all is_blank g2 \<and> list_all is_blank g3"

text \<open>The JSON document with the given pairs: \<open>{"k1":"v1","k2":"v2"}\<close>.\<close>

definition json_document :: "(string \<times> string) list \<Rightarrow> string" where
  "json_document ps =
     literal_text (map (\<lambda>(k, v). Entry [] (Some Double) k [] Double v []) ps) False []"


definition popularNetworks :: "string list" where
  "popularNetworks =
     [''ethereum'', ''arbitrum'', ''optimism'', ''polygon'', ''base'',
      ''avalanche'', ''binance'', ''fantom'', ''gnosis'', ''zksync'']"

definition allNetworks_of :: "string js_object \<Rightarrow> string list" where
  "allNetworks_of chainIds = foldl Set_add [] (Object_values chainIds)"

definition networkList_of :: "string js_object \<Rightarrow> string list" where
  "networkList_of chainIds =
     filter (\<lambda>network. network \<in> set (allNetworks_of chainIds)) popularNetworks @
     filter (\<lambda>network. network \<notin> set popularNetworks) (allNetworks_of chainIds)"

definition explorer_url :: "string \<Rightarrow> string" where
  "explorer_url network =
     (if network = ''ethereum'' then ''https://etherscan.io/tx/''
      else if network = ''binance'' then ''https://bscscan.com/tx/''
      else if network = ''polygon'' then ''https://polygonscan.com/tx/''
      else if network = ''arbitrum'' then ''https://arbiscan.io/tx/''
      else if network = ''optimism'' then ''https://optimistic.etherscan.io/tx/''
      else if network = ''base'' then ''https://basescan.org/tx/''
      else if network = ''avalanche'' then ''https://snowtrace.io/tx/''
      else if network = ''fantom'' then ''https://ftmscan.com/tx/''
      else if network = ''gnosis'' then ''https://gnosisscan.io/tx/''
      else if network = ''zksync'' then ''https://explorer.zksync.io/tx/''
      else ''https://'' @ network @ ''scan.com/tx/'')"

definition explorers_of :: "string js_object \<Rightarrow> string js_object" where
  "explorers_of chainIds =
     foldl (\<lambda>explorers (chainId, networkKey). assign explorers networkKey (explorer_url networkKey))
       [] (Object_entries chainIds)"

record chain_data =
  chainIds :: "string js_object"
  explorers :: "string js_object"
  networkList :: "string list"

definition fallbackChainData :: chain_data where
  "fallbackChainData =
     \<lparr>chainIds =
        [(''1'', ''ethereum''), (''10'', ''optimism''), (''137'', ''polygon''),
         (''42161'', ''arbitrum''), (''8453'', ''base'')],
      explorers =
        [(''ethereum'', ''https://etherscan.io/tx/''),
         (''optimism'', ''https://optimistic.etherscan.io/tx/''),
         (''polygon'', ''https://polygonscan.com/tx/''),
         (''arbitrum'', ''https://arbiscan.io/tx/''),
         (''base'', ''https://basescan.org/tx/'')],
      networkList = [''ethereum'', ''arbitrum'', ''optimism'', ''polygon'', ''base'']\<rparr>"

text \<open>
  What a \<open>fetch\<close> of one of the two text resources gives: a rejection, or a response with
  its \<open>ok\<close> flag and its body (\<open>None\<close> when reading the body fails).
\<close>

datatype resource = Unreachable | Served bool "string option"

definition fetchChainData :: "resource \<Rightarrow> chain_data outcome" where
  "fetchChainData chainIdsResponse =
     (case chainIdsResponse of
        Unreachable \<Rightarrow> Returns fallbackChainData
      | Served ok body \<Rightarrow>
          if \<not> ok then Returns fallbackChainData
          else (case body of
                  None \<Rightarrow> Returns fallbackChainData
                | Some chainIdsText \<Rightarrow>
                    (case extractObject chainIdsText of
                       Returns obj \<Rightarrow>
                         Returns \<lparr>chainIds = obj, explorers = explorers_of obj,
                                  networkList = networkList_of obj\<rparr>
                     | Throws e \<Rightarrow> Returns fallbackChainData
                     | Unmodelled \<Rightarrow> Unmodelled)))"

subsection \<open>fetchRpcData\<close>

text \<open>
  The display name is kept as UTF-16 code units: the capital of a character of the 8-bit
  range can lie outside it.
\<close>

record NetworkInfo =
  name :: "nat list"
  chainId :: js_number
  rpcs :: "string list"
  blockExplorer :: string

definition networkKeyToChainId_of :: "string js_object \<Rightarrow> js_number js_object" where
  "networkKeyToChainId_of ids =
     foldl (\<lambda>m (cid, networkKey). assign m networkKey (parseInt10 cid))
       [] (Object_entries ids)"

definition rpcUrls_of :: "string \<Rightarrow> string list" where
  "rpcUrls_of rpcSection =
     exec_all stringRpcRegex rpcSection @
     exec_all objectRpcRegex rpcSection @
     filter (\<lambda>url. startsWith url ''http'' \<and> \<not> includes_str url ''privacy'')
       (exec_all doubleQuoteRpcRegex rpcSection)"

text \<open>
  The three forms in which an endpoint stands in an \<open>rpcs\<close> array, and the text of an
  array content made of such items, separated by a comma and a space.
\<close>

datatype rpc_item = SingleQuoted string | UrlObject string | DoubleQuoted string

fun item_text :: "rpc_item \<Rightarrow> string" where
  "item_text (SingleQuoted u) = CHR 0x27 # u @ [CHR 0x27]"
| "item_text (UrlObject u) = ''{ url: '' @ CHR 0x27 # u @ CHR 0x27 # '' }''"
| "item_text (DoubleQuoted u) = CHR 0x22 # u @ [CHR 0x22]"

fun section_text :: "rpc_item list \<Rightarrow> string" where
  "section_text [] = []"
| "section_text [i] = item_text i"
| "section_text (i # j # js) = item_text i @ '', '' @ section_text (j # js)"

text \<open>What each of the three passes finds in one item.\<close>

fun found_single :: "rpc_item \<Rightarrow> string list" where
  "found_single (SingleQuoted u) = [u]"
| "found_single (UrlObject u) = [u]"
| "found_single (DoubleQuoted u) = []"

fun found_object :: "rpc_item \<Rightarrow> string list" where
  "found_object (UrlObject u) = [u]"
| "found_object i = []"

fun found_double :: "rpc_item \<Rightarrow> string list" where
  "found_double (DoubleQuoted u) =
     (if startsWith u ''http'' \<and> \<not> includes_str u ''privacy'' then [u] else [])"
| "found_double i = []"

fun item_url :: "rpc_item \<Rightarrow> string" where
  "item_url (SingleQuoted u) = u"
| "item_url (UrlObject u) = u"
| "item_url (DoubleQuoted u) = u"

text \<open>
  An endpoint text without surprises for the three patterns: not empty, free of quote
  characters and of white space, and not ending in a colon.
\<close>

definition plain_url :: "string \<Rightarrow> bool" where
  "plain_url u \<longleftrightarrow>
     u \<noteq> [] \<and> list_all (\<lambda>c. \<not> is_quote c \<and> \<not> is_space c) u \<and> last u \<noteq> CHR '':''"






text \<open>
  \<open>toUpperCase\<close> on one code unit below 256: the letters a to z and the accented
  letters have their capital 32 below; the sharp s becomes \<open>SS\<close>; the micro sign and the
  y with diaeresis have their capitals at U+039C and U+0178; every other code unit stays.
\<close>

definition toUpperCase_unit :: "nat \<Rightarrow> nat list" where
  "toUpperCase_unit c =
     (if 97 \<le> c \<and> c \<le> 122 then [c - 32]
      else if c = 181 then [924]
      else if c = 223 then [83, 83]
      else if (224 \<le> c \<and> c \<le> 246) \<or> (248 \<le> c \<and> c \<le> 254) then [c - 32]
      else if c = 255 then [376]
      else [c])"

definition capitalize :: "string \<Rightarrow> nat list" where
  \<comment> \<open>\<open>charAt(0).toUpperCase() + slice(1)\<close>\<close>
  "capitalize s =
     (case s of
        [] \<Rightarrow> []
      | c # cs \<Rightarrow> toUpperCase_unit (of_char c) @ map of_char cs)"

definition network_info :: "string \<Rightarrow> string js_object \<Rightarrow> string \<Rightarrow> js_number \<Rightarrow> NetworkInfo option" where
  "network_info text explorerMap networkKey cid =
     (let chainIdStr = Number_toString cid in
      case rpcs_regex chainIdStr text of
        None \<Rightarrow> None
      | Some rpcSection \<Rightarrow>
          (let rpcUrls = rpcUrls_of rpcSection in
           if rpcUrls = [] then None
           else Some \<lparr>name = (case name_regex chainIdStr text of
                                Some n \<Rightarrow> map of_char n | None \<Rightarrow> capitalize networkKey),
                      chainId = cid,
                      rpcs = rpcUrls,
                      blockExplorer = (case map_of explorerMap networkKey of
                                         Some u \<Rightarrow> u | None \<Rightarrow> [])\<rparr>))"

definition networksMap_of :: "string \<Rightarrow> chain_data \<Rightarrow> NetworkInfo js_object" where
  "networksMap_of text cd =
     foldl (\<lambda>networksMap (networkKey, cid).
              case network_info text (explorers cd) networkKey cid of
                None \<Rightarrow> networksMap
              | Some info \<Rightarrow> assign networksMap networkKey info)
       [] (Object_entries (networkKeyToChainId_of (chainIds cd)))"

record rpc_data =
  networks :: "NetworkInfo js_object"
  rpcNetworkList :: "string list"

definition fallbackRpcData :: rpc_data where
  "fallbackRpcData =
     \<lparr>networks =
        [(''ethereum'', \<lparr>name = map of_char ''Ethereum'', chainId = Finite 1,
            rpcs = [''https://eth.llamarpc.com''], blockExplorer = ''https://etherscan.io/tx/''\<rparr>),
         (''arbitrum'', \<lparr>name = map of_char ''Arbitrum'', chainId = Finite 42161,
            rpcs = [''https://arb.llamarpc.com''], blockExplorer = ''https://arbiscan.io/tx/''\<rparr>),
         (''optimism'', \<lparr>name = map of_char ''Optimism'', chainId = Finite 10,
            rpcs = [''https://optimism.llamarpc.com''],
            blockExplorer = ''https://optimistic.etherscan.io/tx/''\<rparr>),
         (''polygon'', \<lparr>name = map of_char ''Polygon'', chainId = Finite 137,
            rpcs = [''https://polygon.llamarpc.com''], blockExplorer = ''https://polygonscan.com/tx/''\<rparr>),
         (''base'', \<lparr>name = map of_char ''Base'', chainId = Finite 8453,
            rpcs = [''https://base.llamarpc.com''], blockExplorer = ''https://basescan.org/tx/''\<rparr>)],
      rpcNetworkList = [''ethereum'', ''arbitrum'', ''optimism'', ''polygon'', ''base'']\<rparr>"

definition fetchRpcData :: "resource \<Rightarrow> resource \<Rightarrow> rpc_data outcome" where
  "fetchRpcData chainIdsResponse response =
     (case fetchChainData chainIdsResponse of
        Returns cd \<Rightarrow>
          (case response of
             Unreachable \<Rightarrow> Returns fallbackRpcData
           | Served ok body \<Rightarrow>
               if \<not> ok then Returns fallbackRpcData
               else (case body of
                       None \<Rightarrow> Returns fallbackRpcData
                     | Some text \<Rightarrow>
                         Returns \<lparr>networks = networksMap_of text cd,
                                  rpcNetworkList = networkList cd\<rparr>))
      | Throws e \<Rightarrow> Returns fallbackRpcData
      | Unmodelled \<Rightarrow> Unmodelled)"

subsection \<open>The liveness prober: findWorkingRpc\<close>

text \<open>
  What one \<open>fetch\<close> of a candidate can end in: a response (with its \<open>ok\<close> flag), a
  network-level rejection, or the abort raised by the 3000 ms timer.
\<close>

datatype fetch_outcome = Response bool | NetworkError | Aborted

text \<open>One element of the array \<open>Promise.allSettled\<close> resolves to.\<close>

datatype 'a settled = Fulfilled 'a | Rejected js_error

text \<open>The console, as the list of lines written so far.\<close>

type_synonym console = "string list"

text \<open>
  The async callback given to \<open>rpcs.map\<close>: it fulfils with the URL when the response is
  \<open>ok\<close>; a response that is not \<open>ok\<close>, a network error and an abort all reach the
  \<open>catch\<close>, which warns and rejects with a new error.
\<close>

definition probe :: "fetch_outcome \<Rightarrow> string \<Rightarrow> string settled \<times> console" where
  "probe out rpc =
     (case out of
        Response ok \<Rightarrow>
          if \<not> ok then (Rejected (Error (''RPC '' @ rpc @ '' failed'')), [''RPC '' @ rpc @ '' failed:''])
          else (Fulfilled rpc, [])
      | _ \<Rightarrow> (Rejected (Error (''RPC '' @ rpc @ '' failed'')), [''RPC '' @ rpc @ '' failed:'']))"

text \<open>
  \<open>Promise.allSettled\<close> keeps one slot per input promise, at the promise's index. The
  probes run concurrently and settle in some order, the schedule: a list of indices,
  earliest first. Settling probe \<open>i\<close> fills slot \<open>i\<close> and writes its warning, if any.
  An index with no probe behind it settles nothing.
\<close>

fun settle_probes ::
  "(nat \<Rightarrow> fetch_outcome) \<Rightarrow> string list \<Rightarrow> nat list \<Rightarrow>
   string settled option list \<Rightarrow> console \<Rightarrow> string settled option list \<times> console" where
  "settle_probes net rpcList [] slots out = (slots, out)"
| "settle_probes net rpcList (i # sched) slots out =
     (if i < length rpcList
      then (case probe (net i) (rpcList ! i) of
              (r, warned) \<Rightarrow> settle_probes net rpcList sched (slots[i := Some r]) (out @ warned))
      else settle_probes net rpcList sched slots out)"

text \<open>The combined promise resolves once no slot is empty; until then it is pending (\<open>None\<close>).\<close>

fun all_filled :: "'a option list \<Rightarrow> 'a list option" where
  "all_filled [] = Some []"
| "all_filled (None # xs) = None"
| "all_filled (Some x # xs) = (case all_filled xs of None \<Rightarrow> None | Some ys \<Rightarrow> Some (x # ys))"

definition allSettled ::
  "(nat \<Rightarrow> fetch_outcome) \<Rightarrow> nat list \<Rightarrow> string list \<Rightarrow> (string settled list \<times> console) option" where
  "allSettled net sched rpcList =
     (case settle_probes net rpcList sched (replicate (length rpcList) None) [] of
        (slots, out) \<Rightarrow> (case all_filled slots of None \<Rightarrow> None | Some rs \<Rightarrow> Some (rs, out)))"

text \<open>The \<open>for ... of\<close> loop over the settled results: the first fulfilled one returns.\<close>

fun first_fulfilled :: "'a settled list \<Rightarrow> 'a option" where
  "first_fulfilled [] = None"
| "first_fulfilled (Fulfilled v # rs) = Some v"
| "first_fulfilled (Rejected e # rs) = first_fulfilled rs"

text \<open>
  \<open>findWorkingRpc net sched rpcList\<close>, for the source's argument \<open>rpcs\<close>: \<open>net i\<close> is how the fetch of the \<open>i\<close>-th candidate
  ends and \<open>sched\<close> the order in which the probes have settled. The value is \<open>None\<close>
  while the function is still awaiting, and otherwise what it throws (\<open>Inl\<close>) or returns
  (\<open>Inr\<close>), with the console output.
\<close>

definition findWorkingRpc ::
  "(nat \<Rightarrow> fetch_outcome) \<Rightarrow> nat list \<Rightarrow> string list \<Rightarrow> ((js_error + string) \<times> console) option" where
  "findWorkingRpc net sched rpcList =
     (if length rpcList = 0 then Some (Inl (Error ''No RPCs provided''), [])
      else (case allSettled net sched rpcList of
              None \<Rightarrow> None
            | Some (testResults, out) \<Rightarrow>
                (case first_fulfilled testResults of
                   Some v \<Rightarrow> Some (Inr v, out)
                 | None \<Rightarrow> Some (Inr (rpcList ! 0), out @ [''All RPCs failed, using fallback'']))))"

section \<open>Properties\<close>

subsection \<open>Settling\<close>

lemma settle_probes_length:
  "length (fst (settle_probes net rpcList sched slots out)) = length slots"
  by (induction sched arbitrary: slots out) (auto split: prod.splits)

lemma settle_probes_nth:
  "k < length slots \<Longrightarrow> length slots = length rpcList \<Longrightarrow>
   fst (settle_probes net rpcList sched slots out) ! k =
     (if k \<in> set sched then Some (fst (probe (net k) (rpcList ! k))) else slots ! k)"
proof (induction sched arbitrary: slots out)
  case Nil
  then show ?case by simp
next
  case (Cons i sched)
  show ?case
  proof (cases "i < length rpcList")
    case False
    with Cons show ?thesis by auto
  next
    case True
    obtain r warned where p: "probe (net i) (rpcList ! i) = (r, warned)"
      by (cases "probe (net i) (rpcList ! i)")
    have "fst (settle_probes net rpcList sched (slots[i := Some r]) (out @ warned)) ! k =
          (if k \<in> set sched then Some (fst (probe (net k) (rpcList ! k))) else (slots[i := Some r]) ! k)"
      using Cons.IH [of "slots[i := Some r]" "out @ warned"] Cons.prems by simp
    with True p Cons.prems show ?thesis
      by (auto simp: nth_list_update)
  qed
qed

lemma all_filled_map_Some: "all_filled (map Some ys) = Some ys"
  by (induction ys) auto

lemma all_filled_None_iff:
  "all_filled xs = None \<longleftrightarrow> None \<in> set xs"
  by (induction xs rule: all_filled.induct) (auto split: option.splits)

lemma allSettled_complete:
  assumes "{0..<length rpcList} \<subseteq> set sched"
  shows "\<exists>out. allSettled net sched rpcList =
           Some (map (\<lambda>i. fst (probe (net i) (rpcList ! i))) [0..<length rpcList], out)"
proof -
  let ?n = "length rpcList"
  obtain slots out where s: "settle_probes net rpcList sched (replicate ?n None) [] = (slots, out)"
    by (cases "settle_probes net rpcList sched (replicate ?n None) []")
  have len: "length slots = ?n"
    using settle_probes_length [of net rpcList sched "replicate ?n None" "[]"] s by simp
  have nth: "slots ! k = Some (fst (probe (net k) (rpcList ! k)))" if "k < ?n" for k
    using settle_probes_nth [of k "replicate ?n None" rpcList net sched "[]"] s that assms
    by auto
  have "slots = map Some (map (\<lambda>i. fst (probe (net i) (rpcList ! i))) [0..<?n])"
    by (rule nth_equalityI) (simp_all add: len nth)
  then have "all_filled slots = Some (map (\<lambda>i. fst (probe (net i) (rpcList ! i))) [0..<?n])"
    by (simp only: all_filled_map_Some)
  with s show ?thesis
    by (simp add: allSettled_def)
qed

lemma allSettled_pending:
  assumes "k < length rpcList" and "k \<notin> set sched"
  shows "allSettled net sched rpcList = None"
proof -
  let ?n = "length rpcList"
  obtain slots out where s: "settle_probes net rpcList sched (replicate ?n None) [] = (slots, out)"
    by (cases "settle_probes net rpcList sched (replicate ?n None) []")
  have len: "length slots = ?n"
    using settle_probes_length [of net rpcList sched "replicate ?n None" "[]"] s by simp
  have "slots ! k = None"
    using settle_probes_nth [of k "replicate ?n None" rpcList net sched "[]"] s assms by simp
  then have "None \<in> set slots"
    using len assms(1) by (metis nth_mem)
  then have "all_filled slots = None"
    by (simp add: all_filled_None_iff)
  with s show ?thesis
    by (simp add: allSettled_def)
qed


lemma first_fulfilled_split:
  "\<forall>a \<in> set as. \<exists>e. f a = Rejected e \<Longrightarrow> f i = Fulfilled v \<Longrightarrow>
   first_fulfilled (map f (as @ i # bs)) = Some v"
  by (induction as) auto

lemma first_fulfilled_none:
  "\<forall>a \<in> set as. \<exists>e. f a = Rejected e \<Longrightarrow> first_fulfilled (map f as) = None"
  by (induction as) auto

lemma probe_fulfilled: "fst (probe out rpc) = Fulfilled v \<longleftrightarrow> out = Response True \<and> v = rpc"
  by (auto simp: probe_def split: fetch_outcome.splits)

lemma probe_rejected: "out \<noteq> Response True \<Longrightarrow> \<exists>e. fst (probe out rpc) = Rejected e"
  by (cases out) (auto simp: probe_def)

lemma first_fulfilled_probes:
  assumes "i < n" and "net i = Response True" and "\<forall>j<i. net j \<noteq> Response True"
  shows "first_fulfilled (map (\<lambda>i. fst (probe (net i) (rpcList ! i))) [0..<n]) = Some (rpcList ! i)"
proof -
  have split: "[0..<n] = [0..<i] @ i # [Suc i..<n]"
    using assms(1) by (metis le_add2 le_add_same_cancel2 less_imp_add_positive upt_add_eq_append upt_conv_Cons)
  show ?thesis
    unfolding split
    by (rule first_fulfilled_split) (use assms in \<open>auto simp: probe_fulfilled intro: probe_rejected\<close>)
qed

subsection \<open>findWorkingRpc\<close>

text \<open>
  Claim C1. For a non-empty candidate list, findWorkingRpc decides only after every probe
  has settled: while some candidate's probe is still outstanding it has not returned,
  whatever the others answered. Once all have settled, in whatever order, it returns the
  candidate at the least position whose probe succeeded.
\<close>

theorem findWorkingRpc_first_success_by_position:
  assumes "rpcList \<noteq> []"
  shows "((\<exists>k<length rpcList. k \<notin> set sched) \<longrightarrow> findWorkingRpc net sched rpcList = None) \<and>
         ({0..<length rpcList} \<subseteq> set sched \<and> i < length rpcList \<and> net i = Response True \<and>
            (\<forall>j<i. net j \<noteq> Response True) \<longrightarrow>
          (\<exists>out. findWorkingRpc net sched rpcList = Some (Inr (rpcList ! i), out)))"
proof (intro conjI impI)
  assume "\<exists>k<length rpcList. k \<notin> set sched"
  then obtain k where "k < length rpcList" "k \<notin> set sched" by blast
  then have "allSettled net sched rpcList = None" by (rule allSettled_pending)
  with assms show "findWorkingRpc net sched rpcList = None"
    by (simp add: findWorkingRpc_def)
next
  assume a: "{0..<length rpcList} \<subseteq> set sched \<and> i < length rpcList \<and> net i = Response True \<and>
            (\<forall>j<i. net j \<noteq> Response True)"
  then obtain out where s: "allSettled net sched rpcList =
      Some (map (\<lambda>i. fst (probe (net i) (rpcList ! i))) [0..<length rpcList], out)"
    using allSettled_complete by blast
  have "first_fulfilled (map (\<lambda>i. fst (probe (net i) (rpcList ! i))) [0..<length rpcList]) = Some (rpcList ! i)"
    using a by (intro first_fulfilled_probes) auto
  with s assms show "\<exists>out. findWorkingRpc net sched rpcList = Some (Inr (rpcList ! i), out)"
    by (simp add: findWorkingRpc_def)
qed

text \<open>
  The spec's example: \<open>u2\<close> answers with success, \<open>u1\<close> and \<open>u3\<close> are aborted by
  their timers; \<open>u3\<close> settles first and \<open>u1\<close> last. The result is \<open>u2\<close>; and with
  \<open>u3\<close> still outstanding nothing is returned yet.
\<close>

theorem findWorkingRpc_first_success_witness:
  "(\<exists>out. findWorkingRpc (\<lambda>i. if i = 1 then Response True else Aborted) [2, 1, 0]
       [''u1'', ''u2'', ''u3''] = Some (Inr ''u2'', out)) \<and>
   findWorkingRpc (\<lambda>i. if i = 1 then Response True else Aborted) [1, 0]
       [''u1'', ''u2'', ''u3''] = None"
  using findWorkingRpc_first_success_by_position
          [of "[''u1'', ''u2'', ''u3'']" "[2, 1, 0]" "\<lambda>i. if i = 1 then Response True else Aborted" 1]
        findWorkingRpc_first_success_by_position
          [of "[''u1'', ''u2'', ''u3'']" "[1, 0]" "\<lambda>i. if i = 1 then Response True else Aborted" 1]
  by (auto simp: numeral_3_eq_3 less_Suc_eq)

text \<open>
  Claim C2. For a non-empty candidate list all of whose probes fail, findWorkingRpc does
  not throw: it returns the first candidate unchanged, and the last line written to the
  console is the warning that all RPCs failed.
\<close>

theorem findWorkingRpc_all_failed_fallback:
  assumes "rpcList \<noteq> []" and "{0..<length rpcList} \<subseteq> set sched"
    and "\<forall>i<length rpcList. net i \<noteq> Response True"
  shows "\<exists>out. findWorkingRpc net sched rpcList =
           Some (Inr (hd rpcList), out @ [''All RPCs failed, using fallback''])"
proof -
  obtain out where s: "allSettled net sched rpcList =
      Some (map (\<lambda>i. fst (probe (net i) (rpcList ! i))) [0..<length rpcList], out)"
    using allSettled_complete [OF assms(2)] by blast
  have "first_fulfilled (map (\<lambda>i. fst (probe (net i) (rpcList ! i))) [0..<length rpcList]) = None"
    by (rule first_fulfilled_none) (use assms(3) in \<open>auto intro: probe_rejected\<close>)
  with s assms(1) show ?thesis
    by (simp add: findWorkingRpc_def hd_conv_nth)
qed

text \<open>The spec's example: two candidates, both failing; the result is \<open>u1\<close>.\<close>

theorem findWorkingRpc_all_failed_witness:
  "\<exists>out. findWorkingRpc (\<lambda>i. if i = 0 then Aborted else Response False) [1, 0] [''u1'', ''u2''] =
     Some (Inr ''u1'', out @ [''All RPCs failed, using fallback''])"
proof -
  have covered: "{0..<length [''u1'', ''u2'']} \<subseteq> set [1, 0]"
    by auto
  have failed: "\<forall>i<length [''u1'', ''u2'']. (if i = 0 then Aborted else Response False) \<noteq> Response True"
    by simp
  show ?thesis
    using findWorkingRpc_all_failed_fallback
            [of "[''u1'', ''u2'']" "[1, 0]" "\<lambda>i. if i = 0 then Aborted else Response False",
             OF _ covered failed]
    by simp
qed

text \<open>
  Claim C3. On the empty candidate list findWorkingRpc throws the error
  \<open>No RPCs provided\<close>, and it throws on no other input: whenever it throws, the list
  was empty.
\<close>

theorem findWorkingRpc_raises_iff_empty:
  "findWorkingRpc net sched [] = Some (Inl (Error ''No RPCs provided''), []) \<and>
   ((\<exists>e out. findWorkingRpc net sched rpcList = Some (Inl e, out)) \<longleftrightarrow> rpcList = [])"
  by (auto simp: findWorkingRpc_def split: option.splits prod.splits)

text \<open>At the empty list the error is thrown; at a one-element list none is.\<close>

theorem findWorkingRpc_raises_witness:
  "findWorkingRpc (\<lambda>i. Aborted) [] [] = Some (Inl (Error ''No RPCs provided''), []) \<and>
   \<not> (\<exists>e out. findWorkingRpc (\<lambda>i. Aborted) [0] [''u1''] = Some (Inl e, out))"
  using findWorkingRpc_raises_iff_empty [of "\<lambda>i. Aborted" "[]" "[''u1'']"]
        findWorkingRpc_raises_iff_empty [of "\<lambda>i. Aborted" "[0]" "[''u1'']"]
  by simp

subsection \<open>Enumeration of objects\<close>

lemma set_Object_entries: "set (Object_entries obj) = set obj"
  by (auto simp: Object_entries_def)

lemma set_Object_values: "set (Object_values obj) = snd ` set obj"
  by (simp add: Object_values_def set_Object_entries)

subsection \<open>fetchChainData: the network list\<close>

lemma foldl_Set_add: "foldl Set_add [] xs = rev (remdups (rev xs))"
  by (induction xs rule: rev_induct) (auto simp: Set_add_def)

lemma allNetworks_of_first_occurrences:
  "allNetworks_of obj = rev (remdups (rev (Object_values obj)))"
  by (simp add: allNetworks_of_def foldl_Set_add)

lemma distinct_allNetworks_of: "distinct (allNetworks_of obj)"
  by (simp add: allNetworks_of_first_occurrences)

lemma set_allNetworks_of: "set (allNetworks_of obj) = set (Object_values obj)"
  by (simp add: allNetworks_of_first_occurrences)

lemma distinct_popularNetworks: "distinct popularNetworks"
  by (simp add: popularNetworks_def)

lemma networkList_of_fallback:
  "networkList_of (chainIds fallbackChainData) = networkList fallbackChainData"
  by (simp add: fallbackChainData_def networkList_of_def allNetworks_of_def Set_add_def
      Object_values_def Object_entries_def is_array_index_def is_digit_def decimal_value_def
      popularNetworks_def)

lemma fetchChainData_networkList:
  "fetchChainData r = Returns cd \<Longrightarrow> networkList cd = networkList_of (chainIds cd)"
  by (auto simp: fetchChainData_def networkList_of_fallback
      split: resource.splits if_splits option.splits outcome.splits)

text \<open>
  Claim C6. For every chain-ID mapping, the network list has no duplicates and holds
  exactly the network keys that are values of the mapping. Its popular keys are the
  popular networks present among the values, in the fixed order of the ten; its other keys
  are the remaining values in the order of their first occurrence in the enumeration of the
  mapping; and every popular key stands before every other key. The list returned by
  fetchChainData is always this list for the returned mapping.
\<close>

theorem networkList_prioritized:
  "distinct (networkList_of obj) \<and>
   set (networkList_of obj) = set (Object_values obj) \<and>
   filter (\<lambda>n. n \<in> set popularNetworks) (networkList_of obj) =
     filter (\<lambda>n. n \<in> set (Object_values obj)) popularNetworks \<and>
   filter (\<lambda>n. n \<notin> set popularNetworks) (networkList_of obj) =
     filter (\<lambda>n. n \<notin> set popularNetworks) (rev (remdups (rev (Object_values obj)))) \<and>
   (\<forall>i j. i < length (networkList_of obj) \<and> j < length (networkList_of obj) \<and>
      networkList_of obj ! i \<in> set popularNetworks \<and>
      networkList_of obj ! j \<notin> set popularNetworks \<longrightarrow> i < j) \<and>
   (\<forall>r cd. fetchChainData r = Returns cd \<longrightarrow> networkList cd = networkList_of (chainIds cd)) \<and>
   length popularNetworks = 10"
proof (intro conjI allI impI)
  let ?pop = "filter (\<lambda>n. n \<in> set (allNetworks_of obj)) popularNetworks"
  let ?oth = "filter (\<lambda>n. n \<notin> set popularNetworks) (allNetworks_of obj)"
  have nl: "networkList_of obj = ?pop @ ?oth"
    by (simp add: networkList_of_def)
  show "distinct (networkList_of obj)"
    unfolding nl using distinct_popularNetworks distinct_allNetworks_of [of obj] by auto
  show "set (networkList_of obj) = set (Object_values obj)"
    unfolding nl using set_allNetworks_of [of obj] by auto
  have "filter (\<lambda>n. n \<in> set popularNetworks) ?pop = ?pop"
    by (simp add: filter_id_conv del: filter_filter)
  moreover have "filter (\<lambda>n. n \<in> set popularNetworks) ?oth = []"
    by (simp add: filter_empty_conv)
  ultimately show "filter (\<lambda>n. n \<in> set popularNetworks) (networkList_of obj) =
      filter (\<lambda>n. n \<in> set (Object_values obj)) popularNetworks"
    unfolding nl by (simp add: set_allNetworks_of)
  have "filter (\<lambda>n. n \<notin> set popularNetworks) ?pop = []"
    by (simp add: filter_empty_conv)
  then show "filter (\<lambda>n. n \<notin> set popularNetworks) (networkList_of obj) =
      filter (\<lambda>n. n \<notin> set popularNetworks) (rev (remdups (rev (Object_values obj))))"
    unfolding nl by (simp add: allNetworks_of_first_occurrences)
next
  fix i j
  let ?pop = "filter (\<lambda>n. n \<in> set (allNetworks_of obj)) popularNetworks"
  let ?oth = "filter (\<lambda>n. n \<notin> set popularNetworks) (allNetworks_of obj)"
  have nl: "networkList_of obj = ?pop @ ?oth"
    by (simp add: networkList_of_def)
  assume a: "i < length (networkList_of obj) \<and> j < length (networkList_of obj) \<and>
      networkList_of obj ! i \<in> set popularNetworks \<and>
      networkList_of obj ! j \<notin> set popularNetworks"
  have i: "i < length ?pop"
  proof (rule ccontr)
    assume "\<not> i < length ?pop"
    then have "networkList_of obj ! i = ?oth ! (i - length ?pop)" and "i - length ?pop < length ?oth"
      using a unfolding nl by (auto simp: nth_append)
    then have "networkList_of obj ! i \<in> set ?oth"
      by (metis nth_mem)
    with a show False by simp
  qed
  have j: "\<not> j < length ?pop"
  proof
    assume "j < length ?pop"
    then have "networkList_of obj ! j = ?pop ! j" and "?pop ! j \<in> set ?pop"
      unfolding nl by (simp_all add: nth_append del: set_filter)
    then have "networkList_of obj ! j \<in> set ?pop"
      by simp
    with a show False by simp
  qed
  from i j show "i < j" by simp
next
  fix r cd
  assume "fetchChainData r = Returns cd"
  then show "networkList cd = networkList_of (chainIds cd)"
    by (rule fetchChainData_networkList)
next
  show "length popularNetworks = 10"
    by (simp add: popularNetworks_def)
qed

text \<open>The definitions a concrete run of fetchChainData unfolds.\<close>

lemmas eval_chain =
  to_json_text_def line_comment_def trailing_comma_def bare_key_def word_then_colon_def is_space_def is_word_def
  is_quote_def is_line_end_def extractObject_def JSON_parse_def is_json_space_def substring_def
  fetchChainData_def explorers_of_def networkList_of_def allNetworks_of_def Set_add_def
  Object_entries_def Object_values_def is_array_index_def is_digit_def decimal_value_def
  assign_def explorer_url_def popularNetworks_def

text \<open>
  A run on a literal with chain IDs out of order and a network key that occurs twice.
\<close>

theorem networkList_prioritized_witness:
  \<open>networkList_of [(''10'', ''optimism''), (''7'', ''foo''), (''1'', ''ethereum''), (''8'', ''foo'')] =
     [''ethereum'', ''optimism'', ''foo''] \<and>
   fetchChainData (Served True (Some ''{10: 'optimism', 7: "foo", 1: 'ethereum', 8: 'foo'}'')) =
     Returns \<lparr>chainIds = [(''10'', ''optimism''), (''7'', ''foo''), (''1'', ''ethereum''), (''8'', ''foo'')],
       explorers = [(''ethereum'', ''https://etherscan.io/tx/''), (''foo'', ''https://fooscan.com/tx/''),
                    (''optimism'', ''https://optimistic.etherscan.io/tx/'')],
       networkList = [''ethereum'', ''optimism'', ''foo'']\<rparr>\<close>
proof -
  have run: \<open>fetchChainData (Served True (Some ''{10: 'optimism', 7: "foo", 1: 'ethereum', 8: 'foo'}'')) =
     Returns \<lparr>chainIds = [(''10'', ''optimism''), (''7'', ''foo''), (''1'', ''ethereum''), (''8'', ''foo'')],
       explorers = [(''ethereum'', ''https://etherscan.io/tx/''), (''foo'', ''https://fooscan.com/tx/''),
                    (''optimism'', ''https://optimistic.etherscan.io/tx/'')],
       networkList = [''ethereum'', ''optimism'', ''foo'']\<rparr>\<close>
    by (simp add: eval_chain)
  from networkList_prioritized
         [of "[(''10'', ''optimism''), (''7'', ''foo''), (''1'', ''ethereum''), (''8'', ''foo'')]"]
  have "\<forall>r cd. fetchChainData r = Returns cd \<longrightarrow> networkList cd = networkList_of (chainIds cd)"
    by blast
  with run have "networkList_of [(''10'', ''optimism''), (''7'', ''foo''), (''1'', ''ethereum''), (''8'', ''foo'')] =
     [''ethereum'', ''optimism'', ''foo'']"
    by fastforce
  with run show ?thesis by simp
qed

subsection \<open>fetchChainData: the explorer map\<close>

lemma map_of_assign:
  "map_of (assign m k v) = (if k = ''__proto__'' then map_of m else (map_of m)(k \<mapsto> v))"
  by (simp add: assign_def update_conv')

lemma map_of_explorers_fold:
  "map_of (foldl (\<lambda>m (c, k). assign m k (g k)) m0 es) key =
     (if key \<noteq> ''__proto__'' \<and> key \<in> snd ` set es then Some (g key) else map_of m0 key)"
proof (induction es arbitrary: m0)
  case Nil
  show ?case by simp
next
  case (Cons e es)
  obtain c k where e: "e = (c, k)" by (cases e)
  show ?case
    unfolding e using Cons.IH [of "assign m0 k (g k)"]
    by (auto simp: map_of_assign)
qed

lemma explorers_of_lookup:
  "map_of (explorers_of obj) key =
     (if key \<noteq> ''__proto__'' \<and> key \<in> set (Object_values obj) then Some (explorer_url key) else None)"
  by (simp add: explorers_of_def map_of_explorers_fold set_Object_entries set_Object_values)

text \<open>
  Claim C9, at the network key \<open>__proto__\<close>. The claim promises every network key of the
  parsed mapping an entry of the explorer map. For the mapping \<open>{"1": "__proto__"}\<close> the
  assignment \<open>explorers[network] = ...\<close> reaches the accessor of \<open>Object.prototype\<close> and
  stores nothing: the explorer map comes back empty. For every other key the entry is
  there, as \<open>explorers_of_lookup\<close> shows.
\<close>

theorem explorers_miss_proto_key:
  \<open>fetchChainData (Served True (Some ''{"1": "__proto__"}'')) =
     Returns \<lparr>chainIds = [(''1'', ''__proto__'')], explorers = [], networkList = [''__proto__'']\<rparr>\<close>
  by (simp add: eval_chain)

subsection \<open>fetchChainData: failures\<close>





subsection \<open>Chain IDs as the code searches for them\<close>

lemma digit_char_inverse: "is_digit c \<Longrightarrow> ''0123456789'' ! (of_char c - 48) = c"
  by (auto simp: is_digit_def)

lemma digit_value_less: "is_digit c \<Longrightarrow> (of_char c :: nat) - 48 < 10"
  by (auto simp: is_digit_def)

lemma digit_value_zero: "is_digit c \<Longrightarrow> (of_char c :: nat) - 48 = 0 \<longleftrightarrow> c = CHR ''0''"
  by (auto simp: is_digit_def)

lemma decimal_value_snoc: "decimal_value (ds @ [d]) = 10 * decimal_value ds + (of_char d - 48)"
  by (simp add: decimal_value_def)

lemma show_nat_decimal_value:
  "list_all is_digit ds \<Longrightarrow> ds \<noteq> [] \<Longrightarrow> ds = ''0'' \<or> hd ds \<noteq> CHR ''0'' \<Longrightarrow>
   show_nat (decimal_value ds) = ds"
proof (induction ds rule: rev_induct)
  case Nil
  then show ?case by simp
next
  case (snoc d ds)
  then have d: "is_digit d" and ds: "list_all is_digit ds"
    by simp_all
  let ?d = "(of_char d :: nat) - 48"
  show ?case
  proof (cases "ds = []")
    case True
    then have "decimal_value (ds @ [d]) = ?d"
      by (simp add: decimal_value_def)
    with digit_value_less [OF d] digit_char_inverse [OF d] True show ?thesis
      by (simp add: show_nat.simps)
  next
    case False
    with snoc.prems(3) have hd: "hd ds \<noteq> CHR ''0''"
      by (cases ds) auto
    with snoc.IH ds False have IH: "show_nat (decimal_value ds) = ds"
      by simp
    have pos: "0 < decimal_value ds"
    proof (rule ccontr)
      assume "\<not> 0 < decimal_value ds"
      then have "show_nat (decimal_value ds) = ''0''"
        by (simp add: show_nat.simps)
      with IH have "ds = ''0''" by simp
      with hd show False by simp
    qed
    let ?n = "10 * decimal_value ds + ?d"
    have "\<not> ?n < 10" and "?n div 10 = decimal_value ds" and "?n mod 10 = ?d"
      using pos digit_value_less [OF d] by simp_all
    then have "show_nat ?n = show_nat (decimal_value ds) @ [''0123456789'' ! ?d]"
      by (subst show_nat.simps) simp
    with IH digit_char_inverse [OF d] show ?thesis
      by (simp add: decimal_value_snoc)
  qed
qed

lemma digit_not_space: "is_digit c \<Longrightarrow> \<not> is_space c"
  by (auto simp: is_digit_def is_space_def)

lemma digit_not_sign: "is_digit c \<Longrightarrow> c \<noteq> CHR ''-'' \<and> c \<noteq> CHR ''+''"
  by (auto simp: is_digit_def)

text \<open>
  Below \<open>2^53\<close> every natural number is a double, it is the only number that rounds to
  itself, and it is printed in full.
\<close>

lemma binary_exponent_small: "n < 9007199254740992 \<Longrightarrow> binary_exponent n = 0"
  by (simp add: binary_exponent.simps)

lemma nearest_double_exact: "n < 9007199254740992 \<Longrightarrow> nearest_double n = Some n"
proof -
  assume n: "n < 9007199254740992"
  have "(9007199254740992::nat) < 2 ^ 1024" by simp
  with n have "n < 2 ^ 1024" by (rule less_trans)
  with n show ?thesis
    by (simp add: nearest_double_def binary_exponent_small round_at_def)
qed

lemma binary_exponent_large:
  "9007199254740992 \<le> n \<Longrightarrow>
   0 < binary_exponent n \<and> 4503599627370496 \<le> n div 2 ^ binary_exponent n"
proof (induction n rule: binary_exponent.induct)
  case (1 n)
  show ?case
  proof (cases "n div 2 < 9007199254740992")
    case True
    then have "binary_exponent (n div 2) = 0" by (rule binary_exponent_small)
    with 1 show ?thesis
      by (subst (1 2) binary_exponent.simps) simp
  next
    case False
    with 1 have "4503599627370496 \<le> (n div 2) div 2 ^ binary_exponent (n div 2)"
      by simp
    with 1 show ?thesis
      by (subst (1 2) binary_exponent.simps) (simp add: div_mult2_eq)
  qed
qed

lemma nearest_double_large:
  assumes "9007199254740992 \<le> n" and "nearest_double n = Some v"
  shows "9007199254740992 \<le> v"
proof -
  let ?e = "binary_exponent n"
  from binary_exponent_large [OF assms(1)] have e: "0 < ?e" and q: "4503599627370496 \<le> n div 2 ^ ?e"
    by simp_all
  from e have "(2::nat) ^ 1 \<le> 2 ^ ?e"
    by (intro power_increasing) simp_all
  then have "(2::nat) \<le> 2 ^ ?e" by simp
  with q have "4503599627370496 * 2 \<le> (n div 2 ^ ?e) * 2 ^ ?e"
    by (rule mult_le_mono)
  moreover have "(n div 2 ^ ?e) * 2 ^ ?e \<le> round_at ?e n"
    by (simp add: round_at_def)
  ultimately have "9007199254740992 \<le> round_at ?e n" by simp
  with assms(2) show ?thesis
    by (simp add: nearest_double_def split: if_splits)
qed

lemma nearest_double_small_only:
  assumes "x < 9007199254740992" and "nearest_double v = Some x"
  shows "v = x"
proof (cases "v < 9007199254740992")
  case True
  with assms(2) show ?thesis by (simp add: nearest_double_exact)
next
  case False
  then have "9007199254740992 \<le> v" by simp
  from nearest_double_large [OF this assms(2)] assms(1) show ?thesis by simp
qed

lemma candidate_small:
  assumes "x < 9007199254740992" and "candidate x p = Some v"
  shows "v = x"
proof -
  from assms(2) have "nearest_double v = Some x"
    by (simp add: candidate_def split: if_splits)
  with assms(1) show ?thesis by (rule nearest_double_small_only)
qed

lemma shortest_from_small: "x < 9007199254740992 \<Longrightarrow> shortest_from x j = x"
proof (induction j)
  case 0
  show ?case by (simp add: shortest_from.simps)
next
  case (Suc j)
  show ?case
  proof (cases "candidate x (10 ^ Suc j)")
    case None
    with Suc show ?thesis by (subst shortest_from.simps) simp
  next
    case (Some v)
    with candidate_small [OF Suc.prems Some] show ?thesis
      by (subst shortest_from.simps) simp
  qed
qed

lemma length_show_nat: "0 < k \<Longrightarrow> n < 10 ^ k \<Longrightarrow> length (show_nat n) \<le> k"
proof (induction k arbitrary: n)
  case 0
  then show ?case by simp
next
  case (Suc k)
  show ?case
  proof (cases "n < 10")
    case True
    then show ?thesis by (simp add: show_nat.simps)
  next
    case False
    then have k: "0 < k" using Suc.prems by (cases k) auto
    from Suc.prems have "n div 10 < 10 ^ k" by (simp add: less_mult_imp_div_less)
    from Suc.IH [OF k this] False show ?thesis
      by (subst show_nat.simps) simp
  qed
qed

lemma double_digits_small: "x < 9007199254740992 \<Longrightarrow> double_digits x = show_nat x"
proof -
  assume x: "x < 9007199254740992"
  have "(9007199254740992::nat) < 10 ^ 21" by simp
  with x have "x < 10 ^ 21" by (rule less_trans)
  then have "length (show_nat x) \<le> 21"
    by (intro length_show_nat) simp_all
  with x show ?thesis
    by (simp add: double_digits_def shortest_from_small)
qed

text \<open>
  For the canonical decimal numeral of a natural number below \<open>2^53\<close>, the number parsed is
  that number and the string the patterns are built from is the chain ID itself.
\<close>

lemma parseInt10_numeral:
  assumes "list_all is_digit cid" and "cid \<noteq> []" and "decimal_value cid < 9007199254740992"
  shows "parseInt10 cid = Finite (int (decimal_value cid))"
proof -
  obtain c cs where cid: "cid = c # cs"
    using assms(2) by (cases cid) auto
  with assms(1) have c: "is_digit c" by simp
  have "dropWhile is_space cid = cid"
    using digit_not_space [OF c] by (simp add: cid)
  moreover have "takeWhile is_digit cid = cid"
    using assms(1) by (simp add: takeWhile_eq_all_conv list_all_iff)
  ultimately show ?thesis
    using digit_not_sign [OF c] assms(2) nearest_double_exact [OF assms(3)]
    by (simp add: parseInt10_def cid)
qed

lemma chainIdStr_of_numeral:
  assumes "list_all is_digit cid" and "cid \<noteq> []" and "cid = ''0'' \<or> hd cid \<noteq> CHR ''0''"
    and "decimal_value cid < 9007199254740992"
  shows "Number_toString (parseInt10 cid) = cid"
  using show_nat_decimal_value [OF assms(1,2,3)] assms(4)
  by (simp add: parseInt10_numeral [OF assms(1,2,4)] Number_toString_def double_digits_small)


subsection \<open>fetchRpcData: the networks map\<close>

lemma distinct_keys_Object_entries:
  assumes "distinct (map fst obj)"
  shows "distinct (map fst (Object_entries obj))"
proof -
  from assms have d: "distinct obj" and inj: "inj_on fst (set obj)"
    by (simp_all add: distinct_map)
  have "distinct (Object_entries obj)"
    using d by (auto simp: Object_entries_def)
  moreover have "inj_on fst (set (Object_entries obj))"
    using inj by (simp add: set_Object_entries)
  ultimately show ?thesis
    by (simp add: distinct_map)
qed

lemma map_of_Object_entries:
  assumes "distinct (map fst obj)"
  shows "map_of (Object_entries obj) = map_of obj"
  using assms distinct_keys_Object_entries [OF assms]
  by (simp add: map_of_inject_set set_Object_entries)

lemma distinct_keys_assign:
  "distinct (map fst m) \<Longrightarrow> distinct (map fst (assign m k v))"
  by (simp add: assign_def distinct_update)

lemma distinct_keys_networkKeyToChainId:
  "distinct (map fst (networkKeyToChainId_of ids))"
proof -
  have "distinct (map fst m0) \<Longrightarrow>
        distinct (map fst (foldl (\<lambda>m (cid, k). assign m k (parseInt10 cid)) m0 es))" for m0 es
    by (induction es arbitrary: m0) (auto simp: distinct_keys_assign)
  then show ?thesis
    by (simp add: networkKeyToChainId_of_def)
qed

lemma map_of_last_assign:
  "map_of (foldl (\<lambda>m (c, k). assign m k (f c)) m0 (pre @ (cid, key) # post)) key =
     (if key = ''__proto__'' then map_of m0 key
      else if key \<in> snd ` set post then map_of (foldl (\<lambda>m (c, k). assign m k (f c)) m0 post) key
      else Some (f cid))"
proof -
  have step: "map_of (foldl (\<lambda>m (c, k). assign m k (f c)) m es) key =
        (if key \<noteq> ''__proto__'' \<and> key \<in> snd ` set es
         then map_of (foldl (\<lambda>m (c, k). assign m k (f c)) m' es) key else map_of m key)" for m m' es
  proof (induction es arbitrary: m m')
    case Nil
    show ?case by simp
  next
    case (Cons e es)
    obtain c k where e: "e = (c, k)" by (cases e)
    show ?case
      unfolding e
      using Cons.IH [of "assign m k (f c)" "assign m' k (f c)"] Cons.IH [of "assign m k (f c)" m]
        Cons.IH [of "assign m' k (f c)" m']
      by (auto simp: map_of_assign)
  qed
  show ?thesis
    using step [of "assign (foldl (\<lambda>m (c, k). assign m k (f c)) m0 pre) key (f cid)" post m0]
      step [of m0 pre m0]
    by (auto simp: map_of_assign)
qed

lemma map_of_absent_assign:
  "key \<notin> snd ` set es \<Longrightarrow>
   map_of (foldl (\<lambda>m (c, k). assign m k (f c)) m0 es) key = map_of m0 key"
  by (induction es arbitrary: m0) (auto simp: map_of_assign)

lemma map_of_proto_assign:
  "map_of (foldl (\<lambda>m (c, k). assign m k (f c)) m0 es) ''__proto__'' = map_of m0 ''__proto__''"
  by (induction es arbitrary: m0) (auto simp: map_of_assign)

lemma last_pair_for_key:
  assumes "key \<in> snd ` set es"
  shows "\<exists>pre cid post. es = pre @ (cid, key) # post \<and> key \<notin> snd ` set post"
proof -
  from assms have "\<exists>e \<in> set es. snd e = key" by auto
  then obtain pre e post where "es = pre @ e # post" "snd e = key" "\<forall>z \<in> set post. snd z \<noteq> key"
    using split_list_last_prop [of es "\<lambda>e. snd e = key"] by blast
  then show ?thesis
    by (cases e) auto
qed

lemma networkKeyToChainId_last:
  assumes "Object_entries ids = pre @ (cid, key) # post" and "key \<notin> snd ` set post"
    and "key \<noteq> ''__proto__''"
  shows "map_of (networkKeyToChainId_of ids) key = Some (parseInt10 cid)"
proof -
  have "map_of (foldl (\<lambda>m (c, k). assign m k (parseInt10 c)) [] (pre @ (cid, key) # post)) key =
        Some (parseInt10 cid)"
    using assms(2,3) by (simp only: map_of_last_assign if_False)
  then show ?thesis
    by (simp only: networkKeyToChainId_of_def assms(1))
qed

lemma networkKeyToChainId_Some:
  assumes "map_of (networkKeyToChainId_of ids) key = Some n"
  shows "key \<noteq> ''__proto__'' \<and>
     (\<exists>pre cid post. Object_entries ids = pre @ (cid, key) # post \<and> key \<notin> snd ` set post \<and>
        n = parseInt10 cid)"
proof -
  have "map_of (networkKeyToChainId_of ids) ''__proto__'' = None"
    unfolding networkKeyToChainId_of_def by (simp only: map_of_proto_assign map_of.simps)
  with assms have proto: "key \<noteq> ''__proto__''"
    by (metis option.distinct(1))
  have "key \<in> snd ` set (Object_entries ids)"
  proof (rule ccontr)
    assume "key \<notin> snd ` set (Object_entries ids)"
    then have "map_of (networkKeyToChainId_of ids) key = None"
      by (simp add: networkKeyToChainId_of_def map_of_absent_assign)
    with assms show False by simp
  qed
  from last_pair_for_key [OF this] obtain pre cid post where
    split: "Object_entries ids = pre @ (cid, key) # post" "key \<notin> snd ` set post"
    by (elim exE conjE)
  have "map_of (networkKeyToChainId_of ids) key = Some (parseInt10 cid)"
    using split proto by (rule networkKeyToChainId_last)
  with assms have n: "n = parseInt10 cid" by simp
  show ?thesis
    by (intro conjI exI) (rule proto, rule split(1), rule split(2), rule n)
qed

lemma map_of_networks_fold:
  assumes "distinct (map fst ps)"
  shows "map_of (foldl (\<lambda>networksMap (k, n).
              case g k n of None \<Rightarrow> networksMap | Some info \<Rightarrow> assign networksMap k info) m0 ps) key =
         (case map_of ps key of
            None \<Rightarrow> map_of m0 key
          | Some n \<Rightarrow> (case g key n of
                        None \<Rightarrow> map_of m0 key
                      | Some info \<Rightarrow> if key = ''__proto__'' then map_of m0 key else Some info))"
  using assms
proof (induction ps arbitrary: m0)
  case Nil
  show ?case by simp
next
  case (Cons p ps)
  obtain k n where p: "p = (k, n)" by (cases p)
  from Cons.prems p have notin: "map_of ps k = None" and d: "distinct (map fst ps)"
    by (auto simp: map_of_eq_None_iff)
  show ?case
  proof (cases "key = k")
    case True
    with notin show ?thesis
      unfolding p using Cons.IH [OF d]
      by (auto simp: map_of_assign split: option.splits)
  next
    case False
    then show ?thesis
      unfolding p using Cons.IH [OF d]
      by (auto simp: map_of_assign split: option.splits)
  qed
qed

lemma distinct_keys_networksMap: "distinct (map fst (networksMap_of text cd))"
proof -
  have "distinct (map fst m0) \<Longrightarrow>
        distinct (map fst (foldl (\<lambda>networksMap (k, n).
              case g k n of None \<Rightarrow> networksMap | Some info \<Rightarrow> assign networksMap k info) m0 ps))"
    for m0 :: "NetworkInfo js_object" and ps :: "(string \<times> js_number) list" and g
    by (induction ps arbitrary: m0) (auto simp: distinct_keys_assign split: option.splits)
  then show ?thesis
    by (simp add: networksMap_of_def)
qed

lemma map_of_networksMap:
  "map_of (networksMap_of text cd) key =
     (case map_of (networkKeyToChainId_of (chainIds cd)) key of
        None \<Rightarrow> None
      | Some n \<Rightarrow> network_info text (explorers cd) key n)"
proof -
  let ?nk = "networkKeyToChainId_of (chainIds cd)"
  have d: "distinct (map fst (Object_entries ?nk))"
    by (simp add: distinct_keys_Object_entries distinct_keys_networkKeyToChainId)
  have proto: "map_of ?nk ''__proto__'' = None"
    by (simp add: networkKeyToChainId_of_def map_of_proto_assign)
  show ?thesis
    unfolding networksMap_of_def
    using proto
    by (auto simp: map_of_networks_fold [OF d] map_of_Object_entries distinct_keys_networkKeyToChainId
        split: option.splits)
qed

lemma network_info_Some:
  "network_info text ex key n = Some info \<Longrightarrow>
   chainId info = n \<and> rpcs info \<noteq> [] \<and>
   (\<exists>sec. rpcs_regex (Number_toString n) text = Some sec \<and> rpcs info = rpcUrls_of sec)"
  by (auto simp: network_info_def Let_def split: option.splits if_splits)



lemma networksMap_entry:
  assumes "(key, info) \<in> set (networksMap_of text cd)"
  shows "\<exists>n. map_of (networkKeyToChainId_of (chainIds cd)) key = Some n \<and>
             network_info text (explorers cd) key n = Some info"
proof -
  from assms have "map_of (networksMap_of text cd) key = Some info"
    by (simp add: distinct_keys_networksMap)
  then show ?thesis
    by (simp add: map_of_networksMap split: option.splits)
qed

lemma fetchChainData_no_throw: "fetchChainData r \<noteq> Throws e"
  by (simp add: fetchChainData_def split: resource.splits option.splits outcome.splits)

lemma fetchRpcData_networks:
  assumes "fetchRpcData chainIdsResponse (Served True (Some text)) = Returns d"
  shows "\<exists>cd. fetchChainData chainIdsResponse = Returns cd \<and> networks d = networksMap_of text cd"
  using assms fetchChainData_no_throw [of chainIdsResponse]
  by (cases "fetchChainData chainIdsResponse") (auto simp: fetchRpcData_def)

text \<open>The definitions a concrete run of fetchRpcData unfolds, beyond those of fetchChainData.\<close>

lemmas eval_rpc =
  fetchRpcData_def networksMap_of_def network_info_def networkKeyToChainId_of_def parseInt10_def
  Number_toString_def show_nat.simps binary_exponent.simps round_at_def nearest_double_def
  candidate_def shortest_from.simps double_digits_def exponent_form_def
  rpcs_regex_def name_regex_def entry_at_def rpcs_field_def
  name_field_def quoted_def rpcUrls_of_def stringRpcRegex_def objectRpcRegex_def
  doubleQuoteRpcRegex_def startsWith_def capitalize_def toUpperCase_unit_def

text \<open>
  Claim C10 as stated fails for chain IDs that no double holds. \<open>2^53 + 1\<close> is parsed to
  \<open>2^53\<close>: with the pairs \<open>9007199254740992\<close> and \<open>9007199254740993\<close> under one key,
  the last pair is that of \<open>9007199254740993\<close>, and the entry carries the chain ID of the
  first pair, with its endpoint.
\<close>

theorem networksMap_rounded_chainId_counterexample:
  \<open>Object_entries [(''9007199254740992'', ''big''), (''9007199254740993'', ''big'')] =
     [(''9007199254740992'', ''big'')] @ (''9007199254740993'', ''big'') # [] \<and>
   fetchRpcData (Served True (Some ''{"9007199254740992": "big", "9007199254740993": "big"}''))
      (Served True (Some ''9007199254740992: { rpcs: ['https://a.example'] }'')) =
     Returns \<lparr>networks =
         [(''big'', \<lparr>name = map of_char ''Big'', chainId = Finite 9007199254740992,
             rpcs = [''https://a.example''], blockExplorer = ''https://bigscan.com/tx/''\<rparr>)],
       rpcNetworkList = [''big'']\<rparr> \<and>
   Number_toString (Finite 9007199254740992) = ''9007199254740992'' \<and>
   Finite 9007199254740992 \<noteq> Finite (int (decimal_value ''9007199254740993''))\<close>
  by (simp add: eval_rpc eval_chain decimal_value_def)

text \<open>
  Claim C10, amended. The networks map has at most one entry per network key. The
  \<open>chainId\<close> of the entry under a key is the number \<open>parseInt\<close> gives for the chain ID of
  the last pair with that key in the enumeration of the chain-ID mapping, whatever chain
  IDs earlier pairs gave the key. For a decimal numeral below \<open>2^53\<close> that number is the
  chain ID itself, and it is printed as the chain ID is written. On the success path, the
  map fetchRpcData returns is this map.
\<close>

theorem networksMap_last_chainId_per_key:
  "distinct (map fst (networksMap_of text cd)) \<and>
   (\<forall>key info. (key, info) \<in> set (networksMap_of text cd) \<longrightarrow>
      (\<exists>pre cid post. Object_entries (chainIds cd) = pre @ (cid, key) # post \<and>
         key \<notin> snd ` set post \<and> chainId info = parseInt10 cid)) \<and>
   (\<forall>cid. decimal_numeral cid \<and> decimal_value cid < 2 ^ 53 \<longrightarrow>
      parseInt10 cid = Finite (int (decimal_value cid)) \<and>
      Number_toString (parseInt10 cid) = cid) \<and>
   (\<forall>r d. fetchRpcData r (Served True (Some text)) = Returns d \<longrightarrow>
      (\<exists>cd'. fetchChainData r = Returns cd' \<and> networks d = networksMap_of text cd'))"
proof (intro conjI allI impI)
  show "distinct (map fst (networksMap_of text cd))"
    by (rule distinct_keys_networksMap)
next
  fix key info
  assume "(key, info) \<in> set (networksMap_of text cd)"
  from networksMap_entry [OF this] obtain n where
    n: "map_of (networkKeyToChainId_of (chainIds cd)) key = Some n"
    and info: "network_info text (explorers cd) key n = Some info"
    by (elim exE conjE)
  from networkKeyToChainId_Some [OF n] obtain pre cid post where
    split: "Object_entries (chainIds cd) = pre @ (cid, key) # post" "key \<notin> snd ` set post"
    and cid: "n = parseInt10 cid"
    by (elim exE conjE)
  from network_info_Some [OF info] have "chainId info = n" by simp
  with cid have c: "chainId info = parseInt10 cid" by simp
  show "\<exists>pre cid post. Object_entries (chainIds cd) = pre @ (cid, key) # post \<and>
         key \<notin> snd ` set post \<and> chainId info = parseInt10 cid"
    by (intro exI conjI) (rule split(1), rule split(2), rule c)
next
  fix cid
  assume "decimal_numeral cid \<and> decimal_value cid < 2 ^ 53"
  then have d: "list_all is_digit cid" "cid \<noteq> []" "cid = ''0'' \<or> hd cid \<noteq> CHR ''0''"
    and v: "decimal_value cid < 9007199254740992"
    by (simp_all add: decimal_numeral_def)
  show "parseInt10 cid = Finite (int (decimal_value cid))"
    using d(1,2) v by (rule parseInt10_numeral)
  show "Number_toString (parseInt10 cid) = cid"
    using d v by (rule chainIdStr_of_numeral)
next
  fix r d
  assume "fetchRpcData r (Served True (Some text)) = Returns d"
  then show "\<exists>cd'. fetchChainData r = Returns cd' \<and> networks d = networksMap_of text cd'"
    by (rule fetchRpcData_networks)
qed

text \<open>
  Chain IDs 1 and 5 both map to \<open>ethereum\<close>, and the text lists endpoints for both: the
  single entry carries chain ID 5 and the endpoints of 5.
\<close>

theorem networksMap_last_chainId_witness:
  \<open>fetchRpcData (Served True (Some ''{"1": "ethereum", "5": "ethereum"}''))
      (Served True (Some ''1: { rpcs: ['https://a.example'] }, 5: { rpcs: ['https://g.example'] }'')) =
     Returns \<lparr>networks =
         [(''ethereum'', \<lparr>name = map of_char ''Ethereum'', chainId = Finite 5, rpcs = [''https://g.example''],
             blockExplorer = ''https://etherscan.io/tx/''\<rparr>)],
       rpcNetworkList = [''ethereum'']\<rparr> \<and>
   (\<exists>pre cid post.
      Object_entries [(''1'', ''ethereum''), (''5'', ''ethereum'')] = pre @ (cid, ''ethereum'') # post \<and>
      ''ethereum'' \<notin> snd ` set post \<and> Finite 5 = parseInt10 cid) \<and>
   parseInt10 ''5'' = Finite 5 \<and> Number_toString (parseInt10 ''5'') = ''5'' \<and>
   (\<exists>cd'. fetchChainData (Served True (Some ''{"1": "ethereum", "5": "ethereum"}'')) = Returns cd' \<and>
      [(''ethereum'', \<lparr>name = map of_char ''Ethereum'', chainId = Finite 5, rpcs = [''https://g.example''],
             blockExplorer = ''https://etherscan.io/tx/''\<rparr>)] =
      networksMap_of ''1: { rpcs: ['https://a.example'] }, 5: { rpcs: ['https://g.example'] }'' cd')\<close>
proof -
  let ?cd = "\<lparr>chainIds = [(''1'', ''ethereum''), (''5'', ''ethereum'')],
       explorers = [(''ethereum'', ''https://etherscan.io/tx/'')], networkList = [''ethereum'']\<rparr>"
  let ?text = \<open>''1: { rpcs: ['https://a.example'] }, 5: { rpcs: ['https://g.example'] }''\<close>
  let ?info = "\<lparr>name = map of_char ''Ethereum'', chainId = Finite 5, rpcs = [''https://g.example''],
             blockExplorer = ''https://etherscan.io/tx/''\<rparr>"
  let ?r = \<open>Served True (Some ''{"1": "ethereum", "5": "ethereum"}'')\<close>
  note inst = networksMap_last_chainId_per_key [of ?text ?cd]
  have map: "networksMap_of ?text ?cd = [(''ethereum'', ?info)]"
    by (simp add: eval_rpc eval_chain)
  have run: \<open>fetchRpcData ?r (Served True (Some ?text)) =
     Returns \<lparr>networks = [(''ethereum'', ?info)], rpcNetworkList = [''ethereum'']\<rparr>\<close>
    by (simp add: eval_rpc eval_chain)
  have mem: "(''ethereum'', ?info) \<in> set (networksMap_of ?text ?cd)"
    by (simp only: map list.set insertI1)
  have last: "\<exists>pre cid post. Object_entries (chainIds ?cd) = pre @ (cid, ''ethereum'') # post \<and>
         ''ethereum'' \<notin> snd ` set post \<and> chainId ?info = parseInt10 cid"
    by (rule inst [THEN conjunct2, THEN conjunct1, rule_format, OF mem])
  have five: "decimal_numeral ''5'' \<and> decimal_value ''5'' < 2 ^ 53"
    by (simp add: decimal_numeral_def decimal_value_def is_digit_def)
  have num: "parseInt10 ''5'' = Finite (int (decimal_value ''5'')) \<and>
      Number_toString (parseInt10 ''5'') = ''5''"
    by (rule inst [THEN conjunct2, THEN conjunct2, THEN conjunct1, rule_format, OF five])
  have link: "\<exists>cd'. fetchChainData ?r = Returns cd' \<and>
      networks \<lparr>networks = [(''ethereum'', ?info)], rpcNetworkList = [''ethereum'']\<rparr> =
        networksMap_of ?text cd'"
    by (rule inst [THEN conjunct2, THEN conjunct2, THEN conjunct2, rule_format, OF run])
  have val: "Finite (int (decimal_value ''5'')) = Finite 5"
    by (simp add: decimal_value_def)
  from last have c2: "\<exists>pre cid post.
      Object_entries [(''1'', ''ethereum''), (''5'', ''ethereum'')] = pre @ (cid, ''ethereum'') # post \<and>
      ''ethereum'' \<notin> snd ` set post \<and> Finite 5 = parseInt10 cid"
    by simp
  from num val have c3: "parseInt10 ''5'' = Finite 5"
    by simp
  from num have c4: "Number_toString (parseInt10 ''5'') = ''5''"
    by (rule conjunct2)
  from link have c5: "\<exists>cd'. fetchChainData ?r = Returns cd' \<and> [(''ethereum'', ?info)] = networksMap_of ?text cd'"
    by simp
  from run c2 c3 c4 c5 show ?thesis by (intro conjI)
qed




subsection \<open>fetchRpcData: the three passes over an array content\<close>

lemma exec_all_skip:
  "(\<And>i. i < length pre \<Longrightarrow> m (drop i pre @ rest) = None) \<Longrightarrow>
   exec_all m (pre @ rest) = exec_all m rest"
proof (induction pre)
  case Nil
  show ?case by simp
next
  case (Cons c pre)
  have "m ((c # pre) @ rest) = None"
    using Cons.prems [of 0] by simp
  moreover have "exec_all m (pre @ rest) = exec_all m rest"
  proof (rule Cons.IH)
    fix i assume "i < length pre"
    then show "m (drop i pre @ rest) = None"
      using Cons.prems [of "Suc i"] by simp
  qed
  ultimately show ?case by simp
qed

lemma exec_all_hit:
  "m (c # cs) = Some (x, rest) \<Longrightarrow> length rest \<le> length cs \<Longrightarrow>
   exec_all m (c # cs) = x # exec_all m rest"
  by simp

lemma quoted_wrong_start: "\<not> opening c \<Longrightarrow> quoted opening closing (c # cs) = None"
  by (simp add: quoted_def)

lemma quoted_run:
  "opening q \<Longrightarrow> closing q' \<Longrightarrow> u \<noteq> [] \<Longrightarrow> \<forall>c \<in> set u. \<not> closing c \<Longrightarrow>
   quoted opening closing (q # u @ q' # rest) = Some (u, rest)"
  by (simp add: quoted_def dropWhile_append3 takeWhile_tail)

lemma exec_all_quoted_skip:
  assumes "\<forall>c \<in> set pre. \<not> opening c"
  shows "exec_all (quoted opening closing) (pre @ rest) = exec_all (quoted opening closing) rest"
proof (rule exec_all_skip)
  fix i assume i: "i < length pre"
  then obtain c cs where d: "drop i pre = c # cs"
    by (cases "drop i pre") auto
  then have "c \<in> set pre"
    by (metis in_set_dropD list.set_intros(1))
  with assms have "\<not> opening c" by blast
  then show "quoted opening closing (drop i pre @ rest) = None"
    by (simp add: d quoted_wrong_start)
qed

lemma exec_all_quoted_hit:
  assumes "opening q" and "closing q'" and "u \<noteq> []" and "\<forall>c \<in> set u. \<not> closing c"
  shows "exec_all (quoted opening closing) (q # u @ q' # rest) =
         u # exec_all (quoted opening closing) rest"
  by (rule exec_all_hit) (simp_all add: quoted_run assms)


lemma plain_url_chars:
  "plain_url u \<Longrightarrow> u \<noteq> [] \<and> (\<forall>c \<in> set u. c \<noteq> CHR 0x27 \<and> c \<noteq> CHR 0x22 \<and> \<not> is_space c)"
  by (auto simp: plain_url_def list_all_iff is_quote_def)

lemma single_pass_item:
  assumes "plain_url (item_url i)"
  shows "exec_all stringRpcRegex (item_text i @ rest) = found_single i @ exec_all stringRpcRegex rest"
proof (cases i)
  case (SingleQuoted u)
  with assms have u: "u \<noteq> []" "\<forall>c \<in> set u. \<not> c = CHR 0x27"
    using plain_url_chars [of u] by auto
  show ?thesis
    unfolding SingleQuoted stringRpcRegex_def
    using exec_all_quoted_hit [of "\<lambda>c. c = CHR 0x27" "CHR 0x27" "\<lambda>c. c = CHR 0x27" "CHR 0x27" u rest] u
    by simp
next
  case (UrlObject u)
  with assms have u: "u \<noteq> []" "\<forall>c \<in> set u. \<not> c = CHR 0x27"
    using plain_url_chars [of u] by auto
  have "exec_all stringRpcRegex (''{ url: '' @ (CHR 0x27 # u @ CHR 0x27 # '' }'' @ rest)) =
        exec_all stringRpcRegex (CHR 0x27 # u @ CHR 0x27 # '' }'' @ rest)"
    unfolding stringRpcRegex_def by (rule exec_all_quoted_skip) simp
  also have "\<dots> = u # exec_all stringRpcRegex ('' }'' @ rest)"
    unfolding stringRpcRegex_def
    using exec_all_quoted_hit [of "\<lambda>c. c = CHR 0x27" "CHR 0x27" "\<lambda>c. c = CHR 0x27" "CHR 0x27" u] u
    by simp
  also have "exec_all stringRpcRegex ('' }'' @ rest) = exec_all stringRpcRegex rest"
    unfolding stringRpcRegex_def by (rule exec_all_quoted_skip) simp
  finally show ?thesis
    by (simp add: UrlObject)
next
  case (DoubleQuoted u)
  with assms have u: "\<forall>c \<in> set u. \<not> c = CHR 0x27"
    using plain_url_chars [of u] by auto
  have "exec_all stringRpcRegex ((CHR 0x22 # u @ [CHR 0x22]) @ rest) = exec_all stringRpcRegex rest"
    unfolding stringRpcRegex_def by (rule exec_all_quoted_skip) (use u in auto)
  then show ?thesis
    by (simp add: DoubleQuoted)
qed

lemma double_pass_item:
  assumes "plain_url (item_url i)"
  shows "exec_all doubleQuoteRpcRegex (item_text i @ rest) =
         (case i of DoubleQuoted u \<Rightarrow> [u] | _ \<Rightarrow> []) @ exec_all doubleQuoteRpcRegex rest"
proof (cases i)
  case (SingleQuoted u)
  with assms have u: "\<forall>c \<in> set u. \<not> c = CHR 0x22"
    using plain_url_chars [of u] by auto
  have "exec_all doubleQuoteRpcRegex ((CHR 0x27 # u @ [CHR 0x27]) @ rest) =
        exec_all doubleQuoteRpcRegex rest"
    unfolding doubleQuoteRpcRegex_def by (rule exec_all_quoted_skip) (use u in auto)
  then show ?thesis
    by (simp add: SingleQuoted)
next
  case (UrlObject u)
  with assms have u: "\<forall>c \<in> set u. \<not> c = CHR 0x22"
    using plain_url_chars [of u] by auto
  have "exec_all doubleQuoteRpcRegex ((''{ url: '' @ CHR 0x27 # u @ CHR 0x27 # '' }'') @ rest) =
        exec_all doubleQuoteRpcRegex rest"
    unfolding doubleQuoteRpcRegex_def by (rule exec_all_quoted_skip) (use u in auto)
  then show ?thesis
    by (simp add: UrlObject)
next
  case (DoubleQuoted u)
  with assms have u: "u \<noteq> []" "\<forall>c \<in> set u. \<not> c = CHR 0x22"
    using plain_url_chars [of u] by auto
  show ?thesis
    unfolding DoubleQuoted doubleQuoteRpcRegex_def
    using exec_all_quoted_hit [of "\<lambda>c. c = CHR 0x22" "CHR 0x22" "\<lambda>c. c = CHR 0x22" "CHR 0x22" u rest] u
    by simp
qed

lemma strip_prefix_before:
  "strip_prefix p (v @ q # rest) = Some r \<Longrightarrow> q \<notin> set p \<Longrightarrow> \<exists>w. v = p @ w \<and> r = w @ q # rest"
proof (induction p arbitrary: v)
  case Nil
  then show ?case by simp
next
  case (Cons a p)
  show ?case
  proof (cases v)
    case Nil
    with Cons.prems show ?thesis by (auto split: if_splits)
  next
    case (Cons b v')
    with Cons.prems Cons.IH [of v'] show ?thesis by (auto split: if_splits)
  qed
qed

lemma objectRpcRegex_wrong_start: "c \<noteq> CHR ''u'' \<Longrightarrow> objectRpcRegex (c # cs) = None"
  by (simp add: objectRpcRegex_def)

lemma objectRpcRegex_inside:
  assumes "\<forall>c \<in> set v. \<not> is_quote c \<and> \<not> is_space c" and "v \<noteq> [] \<longrightarrow> last v \<noteq> CHR '':''"
    and "is_quote q"
  shows "objectRpcRegex (v @ q # rest) = None"
proof (cases "strip_prefix ''url:'' (v @ q # rest)")
  case None
  then show ?thesis by (simp add: objectRpcRegex_def)
next
  case (Some r)
  have "q \<notin> set ''url:''"
    using assms(3) by (auto simp: is_quote_def)
  from strip_prefix_before [OF Some this] obtain w where w: "v = ''url:'' @ w" "r = w @ q # rest"
    by (elim exE conjE)
  with assms(2) have "w \<noteq> []" by auto
  then obtain a w' where aw: "w = a # w'" by (cases w) auto
  with w assms(1) have "\<not> is_quote a" "\<not> is_space a" by auto
  then have "quoted (\<lambda>c. c = CHR 0x27) (\<lambda>c. c = CHR 0x27) (dropWhile is_space r) = None"
    by (simp add: w aw quoted_wrong_start is_quote_def)
  with Some show ?thesis by (simp add: objectRpcRegex_def)
qed

lemma object_skip_chars:
  assumes "\<forall>c \<in> set pre. c \<noteq> CHR ''u''"
  shows "exec_all objectRpcRegex (pre @ rest) = exec_all objectRpcRegex rest"
proof (rule exec_all_skip)
  fix i assume i: "i < length pre"
  then obtain c cs where d: "drop i pre = c # cs"
    by (cases "drop i pre") auto
  then have "c \<in> set pre"
    by (metis in_set_dropD list.set_intros(1))
  with assms have "c \<noteq> CHR ''u''" by blast
  then show "objectRpcRegex (drop i pre @ rest) = None"
    by (simp add: d objectRpcRegex_wrong_start)
qed

lemma object_skip_url:
  assumes "plain_url u" and "is_quote q"
  shows "exec_all objectRpcRegex (u @ q # rest) = exec_all objectRpcRegex (q # rest)"
proof (rule exec_all_skip)
  fix i assume i: "i < length u"
  have chars: "\<forall>c \<in> set (drop i u). \<not> is_quote c \<and> \<not> is_space c"
    using assms(1) by (auto simp: plain_url_def list_all_iff dest: in_set_dropD)
  have "last (drop i u) \<noteq> CHR '':''"
    using assms(1) i by (simp add: plain_url_def)
  then show "objectRpcRegex (drop i u @ q # rest) = None"
    using chars assms(2) by (intro objectRpcRegex_inside) auto
qed

lemma object_skip_quoted:
  assumes "plain_url u" and "is_quote q"
  shows "exec_all objectRpcRegex (q # u @ q # rest) = exec_all objectRpcRegex rest"
proof -
  have q: "\<forall>c \<in> set [q]. c \<noteq> CHR ''u''"
    using assms(2) by (auto simp: is_quote_def)
  have "exec_all objectRpcRegex ([q] @ u @ q # rest) = exec_all objectRpcRegex (u @ q # rest)"
    using q by (rule object_skip_chars)
  also have "\<dots> = exec_all objectRpcRegex ([q] @ rest)"
    using object_skip_url [OF assms] by simp
  also have "\<dots> = exec_all objectRpcRegex rest"
    using q by (rule object_skip_chars)
  finally show ?thesis by simp
qed

lemma objectRpcRegex_hit:
  assumes "plain_url u"
  shows "objectRpcRegex (''url: '' @ CHR 0x27 # u @ CHR 0x27 # rest) = Some (u, rest)"
proof -
  from plain_url_chars [OF assms] have u: "u \<noteq> []" "\<forall>c \<in> set u. \<not> c = CHR 0x27" by auto
  have "quoted (\<lambda>c. c = CHR 0x27) (\<lambda>c. c = CHR 0x27) (CHR 0x27 # u @ CHR 0x27 # rest) = Some (u, rest)"
    using u by (intro quoted_run) auto
  then show ?thesis
    by (simp add: objectRpcRegex_def is_space_def)
qed

lemma object_pass_item:
  assumes "plain_url (item_url i)"
  shows "exec_all objectRpcRegex (item_text i @ rest) = found_object i @ exec_all objectRpcRegex rest"
proof (cases i)
  case (SingleQuoted u)
  with assms show ?thesis
    using object_skip_quoted [of u "CHR 0x27" rest] by (simp add: is_quote_def)
next
  case (DoubleQuoted u)
  with assms show ?thesis
    using object_skip_quoted [of u "CHR 0x22" rest] by (simp add: is_quote_def)
next
  case (UrlObject u)
  with assms have u: "plain_url u" by simp
  have "exec_all objectRpcRegex (''{ '' @ (''url: '' @ CHR 0x27 # u @ CHR 0x27 # '' }'' @ rest)) =
        exec_all objectRpcRegex (''url: '' @ CHR 0x27 # u @ CHR 0x27 # '' }'' @ rest)"
    by (rule object_skip_chars) simp
  also have "\<dots> = u # exec_all objectRpcRegex ('' }'' @ rest)"
    using objectRpcRegex_hit [OF u, of "'' }'' @ rest"] by simp
  also have "exec_all objectRpcRegex ('' }'' @ rest) = exec_all objectRpcRegex rest"
    by (rule object_skip_chars) simp
  finally show ?thesis
    by (simp add: UrlObject)
qed


lemma pass_section:
  assumes item: "\<And>i rest. i \<in> set items \<Longrightarrow> P (item_text i @ rest) = f i @ P rest"
    and sep: "\<And>rest. P ('', '' @ rest) = P rest"
    and empty: "P [] = []"
  shows "P (section_text items) = concat (map f items)"
  using item
proof (induction items rule: section_text.induct)
  case 1
  show ?case by (simp add: empty)
next
  case (2 i)
  from 2 [of i "[]"] show ?case by (simp add: empty)
next
  case (3 i j js)
  have "P (section_text (j # js)) = concat (map f (j # js))"
    by (rule "3.IH") (simp add: "3.prems")
  moreover have "P (item_text i @ '', '' @ section_text (j # js)) =
      f i @ P ('', '' @ section_text (j # js))"
    by (rule "3.prems") simp
  ultimately show ?case
    by (simp only: section_text.simps sep list.map concat.simps)
qed

lemma filter_found_double:
  "filter (\<lambda>url. startsWith url ''http'' \<and> \<not> includes_str url ''privacy'')
     (concat (map (\<lambda>i. case i of DoubleQuoted u \<Rightarrow> [u] | _ \<Rightarrow> []) items)) =
   concat (map found_double items)"
proof (induction items)
  case Nil
  show ?case by simp
next
  case (Cons i items)
  then show ?case by (cases i) simp_all
qed

lemma single_pass_section:
  assumes "\<forall>i \<in> set items. plain_url (item_url i)"
  shows "exec_all stringRpcRegex (section_text items) = concat (map found_single items)"
proof (rule pass_section)
  show "exec_all stringRpcRegex (item_text i @ rest) = found_single i @ exec_all stringRpcRegex rest"
    if "i \<in> set items" for i rest
    using assms that by (intro single_pass_item) blast
  show "exec_all stringRpcRegex ('', '' @ rest) = exec_all stringRpcRegex rest" for rest
    unfolding stringRpcRegex_def by (rule exec_all_quoted_skip) simp
qed simp

lemma object_pass_section:
  assumes "\<forall>i \<in> set items. plain_url (item_url i)"
  shows "exec_all objectRpcRegex (section_text items) = concat (map found_object items)"
proof (rule pass_section)
  show "exec_all objectRpcRegex (item_text i @ rest) = found_object i @ exec_all objectRpcRegex rest"
    if "i \<in> set items" for i rest
    using assms that by (intro object_pass_item) blast
  show "exec_all objectRpcRegex ('', '' @ rest) = exec_all objectRpcRegex rest" for rest
    by (rule object_skip_chars) simp
qed simp

lemma double_pass_section:
  assumes "\<forall>i \<in> set items. plain_url (item_url i)"
  shows "filter (\<lambda>url. startsWith url ''http'' \<and> \<not> includes_str url ''privacy'')
           (exec_all doubleQuoteRpcRegex (section_text items)) =
         concat (map found_double items)"
proof -
  have "exec_all doubleQuoteRpcRegex (section_text items) =
      concat (map (\<lambda>i. case i of DoubleQuoted u \<Rightarrow> [u] | _ \<Rightarrow> []) items)"
  proof (rule pass_section)
    show "exec_all doubleQuoteRpcRegex (item_text i @ rest) =
        (case i of DoubleQuoted u \<Rightarrow> [u] | _ \<Rightarrow> []) @ exec_all doubleQuoteRpcRegex rest"
      if "i \<in> set items" for i rest
      using assms that by (intro double_pass_item) blast
    show "exec_all doubleQuoteRpcRegex ('', '' @ rest) = exec_all doubleQuoteRpcRegex rest" for rest
      unfolding doubleQuoteRpcRegex_def by (rule exec_all_quoted_skip) simp
  qed simp
  then show ?thesis
    by (simp only: filter_found_double)
qed


text \<open>
  Claim C8. Take an array content whose items are endpoints in the three forms (a
  single-quoted string, an object with a single-quoted \<open>url:\<close> field, a double-quoted
  string), each endpoint a plain URL text. The extractor returns, in this order: the
  single-quoted endpoints and the \<open>url:\<close> values in their order in the text (the first
  pass), the \<open>url:\<close> values again (the second pass), and the double-quoted endpoints that
  start with \<open>http\<close> and do not contain \<open>privacy\<close> (the third pass).
\<close>

theorem rpcUrls_of_three_forms:
  assumes "\<forall>i \<in> set items. plain_url (item_url i)"
  shows "rpcUrls_of (section_text items) =
           concat (map found_single items) @ concat (map found_object items) @
           concat (map found_double items)"
  by (simp only: rpcUrls_of_def single_pass_section [OF assms] object_pass_section [OF assms]
        double_pass_section [OF assms])

text \<open>
  The spec's example, through the whole of fetchRpcData: the entry of chain ID 1 lists two
  single-quoted endpoints, and the networks map holds both, in that order. And an array
  content with one endpoint in each form.
\<close>

theorem rpcUrls_of_three_forms_witness:
  \<open>rpcUrls_of (section_text [SingleQuoted ''https://a.example'', SingleQuoted ''https://b.example'']) =
     [''https://a.example'', ''https://b.example''] \<and>
   fetchRpcData (Served True (Some ''{"1": "ethereum"}''))
      (Served True (Some ''1: { rpcs: ['https://a.example', 'https://b.example'] }'')) =
     Returns \<lparr>networks =
         [(''ethereum'', \<lparr>name = map of_char ''Ethereum'', chainId = Finite 1,
             rpcs = [''https://a.example'', ''https://b.example''],
             blockExplorer = ''https://etherscan.io/tx/''\<rparr>)],
       rpcNetworkList = [''ethereum'']\<rparr> \<and>
   rpcUrls_of (section_text [SingleQuoted ''https://a.example'', UrlObject ''https://b.example'',
       DoubleQuoted ''https://c.example'', DoubleQuoted ''https://privacy.example'']) =
     [''https://a.example'', ''https://b.example'', ''https://b.example'', ''https://c.example'']\<close>
proof -
  have plain: "plain_url ''https://a.example''" "plain_url ''https://b.example''"
    "plain_url ''https://c.example''" "plain_url ''https://privacy.example''"
    by (simp_all add: plain_url_def is_quote_def is_space_def)
  have run: \<open>fetchRpcData (Served True (Some ''{"1": "ethereum"}''))
      (Served True (Some ''1: { rpcs: ['https://a.example', 'https://b.example'] }'')) =
     Returns \<lparr>networks =
         [(''ethereum'', \<lparr>name = map of_char ''Ethereum'', chainId = Finite 1,
             rpcs = [''https://a.example'', ''https://b.example''],
             blockExplorer = ''https://etherscan.io/tx/''\<rparr>)],
       rpcNetworkList = [''ethereum'']\<rparr>\<close>
    by (simp add: eval_rpc eval_chain)
  have two: "rpcUrls_of (section_text [SingleQuoted ''https://a.example'', SingleQuoted ''https://b.example'']) =
     [''https://a.example'', ''https://b.example'']"
    using rpcUrls_of_three_forms
            [of "[SingleQuoted ''https://a.example'', SingleQuoted ''https://b.example'']"] plain
    by simp
  have four: "rpcUrls_of (section_text [SingleQuoted ''https://a.example'', UrlObject ''https://b.example'',
       DoubleQuoted ''https://c.example'', DoubleQuoted ''https://privacy.example'']) =
     [''https://a.example'', ''https://b.example'', ''https://b.example'', ''https://c.example'']"
    using rpcUrls_of_three_forms
            [of "[SingleQuoted ''https://a.example'', UrlObject ''https://b.example'',
       DoubleQuoted ''https://c.example'', DoubleQuoted ''https://privacy.example'']"] plain
    by (simp add: startsWith_def)
  from two run four show ?thesis by (intro conjI)
qed

subsection \<open>fetchRpcData: entries of the text and entries of the networks map\<close>















lemma strip_prefix_append: "strip_prefix p (p @ s) = Some s"
  by (induction p) simp_all






























text \<open>
  The pattern built from a chain ID is not anchored on the left: it also matches where the
  chain ID ends a longer one. The text has an entry for chain ID 11 and none for chain ID 1,
  and \<open>ethereum\<close>, of chain ID 1, is recorded with the endpoint of 11.
\<close>

lemma networksMap_longer_chainId_example:
  \<open>fetchRpcData (Served True (Some ''{"1": "ethereum"}''))
      (Served True (Some ''11: { rpcs: ['https://b.example'] }'')) =
     Returns \<lparr>networks =
         [(''ethereum'', \<lparr>name = map of_char ''Ethereum'', chainId = Finite 1,
             rpcs = [''https://b.example''], blockExplorer = ''https://etherscan.io/tx/''\<rparr>)],
       rpcNetworkList = [''ethereum'']\<rparr>\<close>
  by (simp add: eval_rpc eval_chain)




subsection \<open>extractObject: the slice\<close>

lemma indexOf_first:
  "x \<notin> set pre \<Longrightarrow> indexOf (pre @ x # rest) x = int (length pre)"
  by (induction pre) (auto simp: Let_def)

lemma lastIndexOf_none: "x \<notin> set s \<Longrightarrow> lastIndexOf s x = - 1"
  by (induction s) (auto simp: Let_def)

lemma lastIndexOf_last:
  "x \<notin> set post \<Longrightarrow> lastIndexOf (pre @ x # post) x = int (length pre)"
proof (induction pre)
  case Nil
  then show ?case by (simp add: lastIndexOf_none Let_def)
next
  case (Cons c pre)
  then show ?case by (simp add: Let_def)
qed

lemma substring_middle:
  "substring (pre @ mid @ post) (int (length pre)) (int (length pre) + int (length mid)) = mid"
proof -
  let ?a = "int (length pre)" and ?b = "int (length pre) + int (length mid)"
  let ?n = "int (length (pre @ mid @ post))"
  have a: "min (max ?a 0) ?n = ?a" and b: "min (max ?b 0) ?n = ?b"
    by simp_all
  have "nat (max ?a ?b) - nat (min ?a ?b) = length mid" and "nat (min ?a ?b) = length pre"
    by simp_all
  then show ?thesis
    unfolding substring_def Let_def a b by simp
qed

lemma slice_of_literal:
  assumes "CHR ''{'' \<notin> set pre" and "CHR ''}'' \<notin> set post"
  shows "indexOf (pre @ literal_text es t g @ post) CHR ''{'' = int (length pre)"
    and "lastIndexOf (pre @ literal_text es t g @ post) CHR ''}'' + 1 =
         int (length pre) + int (length (literal_text es t g))"
proof -
  let ?inner = "body_text es t @ gap_text g"
  have lit: "literal_text es t g = CHR ''{'' # ?inner @ [CHR ''}'']"
    by (simp add: literal_text_def)
  show "indexOf (pre @ literal_text es t g @ post) CHR ''{'' = int (length pre)"
    using indexOf_first [OF assms(1), of "?inner @ [CHR ''}''] @ post"] by (simp add: lit)
  have "lastIndexOf ((pre @ CHR ''{'' # ?inner) @ CHR ''}'' # post) CHR ''}'' =
        int (length (pre @ CHR ''{'' # ?inner))"
    using assms(2) by (rule lastIndexOf_last)
  then show "lastIndexOf (pre @ literal_text es t g @ post) CHR ''}'' + 1 =
         int (length pre) + int (length (literal_text es t g))"
    by (simp add: lit)
qed

lemma extractObject_slice:
  assumes "CHR ''{'' \<notin> set pre" and "CHR ''}'' \<notin> set post"
  shows "extractObject (pre @ literal_text es t g @ post) =
         (case JSON_parse (to_json_text (literal_text es t g)) of
            Returns obj \<Rightarrow> Returns obj | Throws e \<Rightarrow> Returns [] | Unmodelled \<Rightarrow> Unmodelled)"
  unfolding extractObject_def slice_of_literal [OF assms] Let_def
  by (simp add: substring_middle)


subsection \<open>extractObject: the replacements\<close>

lemma replace_all_skip:
  "(\<And>i. i < length pre \<Longrightarrow> m (drop i pre @ rest) = None) \<Longrightarrow>
   replace_all m (pre @ rest) = pre @ replace_all m rest"
proof (induction pre)
  case Nil
  show ?case by simp
next
  case (Cons c pre)
  have "m ((c # pre) @ rest) = None"
    using Cons.prems [of 0] by simp
  moreover have "replace_all m (pre @ rest) = pre @ replace_all m rest"
  proof (rule Cons.IH)
    fix i assume "i < length pre"
    then show "m (drop i pre @ rest) = None"
      using Cons.prems [of "Suc i"] by simp
  qed
  ultimately show ?case by simp
qed

lemma replace_all_skip_chars:
  assumes "\<And>c cs. c \<in> set pre \<Longrightarrow> m (c # cs) = None"
  shows "replace_all m (pre @ rest) = pre @ replace_all m rest"
proof (rule replace_all_skip)
  fix i assume "i < length pre"
  then obtain c cs where d: "drop i pre = c # cs"
    by (cases "drop i pre") auto
  then have "c \<in> set pre"
    by (metis in_set_dropD list.set_intros(1))
  then show "m (drop i pre @ rest) = None"
    by (simp add: d assms)
qed

lemma replace_all_hit:
  "m (c # cs) = Some (new, rest) \<Longrightarrow> length rest \<le> length cs \<Longrightarrow>
   replace_all m (c # cs) = new @ replace_all m rest"
  by simp

text \<open>Line comments.\<close>

lemma line_comment_wrong_start: "c \<noteq> CHR ''/'' \<Longrightarrow> line_comment (c # cs) = None"
  by (simp add: line_comment_def)

lemma comments_plain:
  "CHR ''/'' \<notin> set s \<Longrightarrow> replace_all line_comment (s @ rest) = s @ replace_all line_comment rest"
  by (rule replace_all_skip_chars) (auto intro: line_comment_wrong_start)

lemma comments_comment:
  assumes "list_all (\<lambda>c. \<not> is_line_end c) t" and "is_line_end e"
  shows "replace_all line_comment (''//'' @ t @ e # rest) = e # replace_all line_comment rest"
proof -
  have "dropWhile (\<lambda>c. \<not> is_line_end c) (t @ e # rest) = e # rest"
    using assms by (simp add: dropWhile_append3 list_all_iff)
  then have hit: "line_comment (''//'' @ t @ e # rest) = Some ([], e # rest)"
    by (simp add: line_comment_def)
  have "replace_all line_comment (''//'' @ t @ e # rest) = [] @ replace_all line_comment (e # rest)"
    using hit by (simp del: replace_all.simps add: replace_all_hit)
  moreover have "e \<noteq> CHR ''/''"
    using assms(2) by (auto simp: is_line_end_def)
  then have "replace_all line_comment ([e] @ rest) = [e] @ replace_all line_comment rest"
    by (intro comments_plain) simp
  ultimately show ?thesis by simp
qed

lemma comments_gap:
  "list_all piece_ok g \<Longrightarrow>
   replace_all line_comment (gap_text g @ rest) =
     gap_text (map blank_piece g) @ replace_all line_comment rest"
proof (induction g)
  case Nil
  show ?case by (simp add: gap_text_def)
next
  case (Cons p g)
  then have IH: "replace_all line_comment (gap_text g @ rest) =
     gap_text (map blank_piece g) @ replace_all line_comment rest"
    by simp
  show ?case
  proof (cases p)
    case (Blank c)
    with Cons.prems have "c \<noteq> CHR ''/''"
      by (auto simp: is_json_space_def)
    then have "replace_all line_comment ([c] @ gap_text g @ rest) =
        [c] @ replace_all line_comment (gap_text g @ rest)"
      by (intro comments_plain) simp
    with IH show ?thesis
      by (simp add: Blank gap_text_def)
  next
    case (LineComment t e)
    with Cons.prems have "list_all (\<lambda>c. \<not> is_line_end c) t" "is_line_end e"
      by simp_all
    from comments_comment [OF this, of "gap_text g @ rest"] IH show ?thesis
      by (simp add: LineComment gap_text_def)
  qed
qed

lemma not_word:
  "\<not> is_word CHR ''/''" "\<not> is_word CHR '':''" "\<not> is_word CHR '',''"
  "\<not> is_word CHR 0x27" "\<not> is_word CHR 0x22" "\<not> is_word CHR ''{''" "\<not> is_word CHR ''}''"
  "\<not> is_word CHR '']''" "\<not> is_word CHR 0x5C"
  by (simp_all add: is_word_def)

lemma word_not_space: "is_word c \<Longrightarrow> \<not> is_space c"
  by (auto simp: is_space_def not_word is_word_def)

lemma key_text_no_slash:
  assumes "list_all is_word k"
  shows "CHR ''/'' \<notin> set (key_text kq k)"
proof -
  from assms have "CHR ''/'' \<notin> set k"
    using not_word(1) by (auto simp: list_all_iff)
  then show ?thesis
    by (cases kq; cases "the kq") auto
qed

lemma value_text_no_slash: "list_all value_char v \<Longrightarrow> CHR ''/'' \<notin> set (value_text vq v)"
  by (cases vq) (auto simp: list_all_iff value_char_def value_text_def)

lemma comments_entry:
  assumes "entry_ok e"
  shows "replace_all line_comment (entry_text e @ rest) =
         entry_text (without_comments e) @ replace_all line_comment rest"
proof -
  obtain g1 kq k g2 vq v g3 where e: "e = Entry g1 kq k g2 vq v g3"
    by (cases e)
  from assms have ok: "list_all piece_ok g1" "list_all piece_ok g2" "list_all piece_ok g3"
    "list_all is_word k" "list_all value_char v"
    by (simp_all add: e)
  have k: "CHR ''/'' \<notin> set (key_text kq k @ '':'')"
    using key_text_no_slash [OF ok(4)] by simp
  have "replace_all line_comment (entry_text e @ rest) =
        replace_all line_comment (gap_text g1 @ (key_text kq k @ '':'') @ gap_text g2 @
          value_text vq v @ gap_text g3 @ rest)"
    by (simp add: e)
  also have "\<dots> = gap_text (map blank_piece g1) @ (key_text kq k @ '':'') @
      gap_text (map blank_piece g2) @ value_text vq v @ gap_text (map blank_piece g3) @
      replace_all line_comment rest"
    by (simp only: comments_gap [OF ok(1)] comments_gap [OF ok(2)] comments_gap [OF ok(3)]
        comments_plain [OF k] comments_plain [OF value_text_no_slash [OF ok(5)]])
  finally show ?thesis
    by (simp add: e)
qed

lemma comments_body:
  "list_all entry_ok es \<Longrightarrow>
   replace_all line_comment (body_text es t @ rest) =
     body_text (map without_comments es) t @ replace_all line_comment rest"
proof (induction es t rule: body_text.induct)
  case (1 t)
  show ?case by simp
next
  case (2 e t)
  then have "entry_ok e" by simp
  from comments_entry [OF this] comments_plain [of "'',''" rest] show ?case
    by simp
next
  case (3 e e' es t)
  then have e: "entry_ok e" and IH: "replace_all line_comment (body_text (e' # es) t @ rest) =
     body_text (map without_comments (e' # es)) t @ replace_all line_comment rest"
    by simp_all
  have "replace_all line_comment (body_text (e # e' # es) t @ rest) =
        replace_all line_comment (entry_text e @ '','' @ body_text (e' # es) t @ rest)"
    by simp
  also have "\<dots> = entry_text (without_comments e) @
      replace_all line_comment ('','' @ body_text (e' # es) t @ rest)"
    by (rule comments_entry [OF e])
  also have "replace_all line_comment ('','' @ body_text (e' # es) t @ rest) =
      '','' @ replace_all line_comment (body_text (e' # es) t @ rest)"
    by (rule comments_plain) simp
  finally show ?case
    using IH by simp
qed

lemma comments_literal:
  assumes "list_all entry_ok es" and "list_all piece_ok g"
  shows "replace_all line_comment (literal_text es t g) =
         literal_text (map without_comments es) t (map blank_piece g)"
proof -
  have "replace_all line_comment (''{'' @ body_text es t @ gap_text g @ ''}'' @ []) =
        ''{'' @ replace_all line_comment (body_text es t @ gap_text g @ ''}'' @ [])"
    by (rule comments_plain) simp
  also have "replace_all line_comment (body_text es t @ gap_text g @ ''}'' @ []) =
      body_text (map without_comments es) t @ replace_all line_comment (gap_text g @ ''}'' @ [])"
    by (rule comments_body [OF assms(1)])
  also have "replace_all line_comment (gap_text g @ ''}'' @ []) =
      gap_text (map blank_piece g) @ replace_all line_comment (''}'' @ [])"
    by (rule comments_gap [OF assms(2)])
  also have "replace_all line_comment (''}'' @ []) = ''}'' @ replace_all line_comment []"
    by (rule comments_plain) simp
  finally have "replace_all line_comment (''{'' @ body_text es t @ gap_text g @ ''}'' @ []) =
        ''{'' @ body_text (map without_comments es) t @ gap_text (map blank_piece g) @ ''}'' @
        replace_all line_comment []" .
  then show ?thesis
    by (simp add: literal_text_def)
qed


text \<open>Trailing commas.\<close>

lemma json_space_is_space: "is_json_space c \<Longrightarrow> is_space c"
  by (auto simp: is_json_space_def is_space_def)

lemma json_space_not:
  assumes "is_json_space c"
  shows "c \<noteq> CHR '',''" "c \<noteq> CHR ''/''" "\<not> is_word c" "\<not> is_quote c" "c \<noteq> CHR '']''"
    "c \<noteq> CHR ''}''" "c \<noteq> CHR '':''" "c \<noteq> CHR 0x27"
  using assms by (auto simp: is_json_space_def is_word_def is_quote_def)

lemma blank_gap_spaces: "list_all is_blank g \<Longrightarrow> list_all is_json_space (gap_text g)"
proof (induction g)
  case Nil
  show ?case by (simp add: gap_text_def)
next
  case (Cons p g)
  then show ?case by (cases p) (simp_all add: gap_text_def)
qed

lemma blank_after_comments: "list_all piece_ok g \<Longrightarrow> list_all is_blank (map blank_piece g)"
proof (induction g)
  case Nil
  show ?case by simp
next
  case (Cons p g)
  then show ?case
    by (cases p) (auto simp: is_line_end_def is_json_space_def)
qed

lemma entry_blank_after_comments: "entry_ok e \<Longrightarrow> entry_blank (without_comments e)"
  by (cases e) (simp add: blank_after_comments)

lemma entry_ok_after_comments: "entry_ok e \<Longrightarrow> entry_ok (without_comments e)"
proof (cases e)
  case (Entry g1 kq k g2 vq v g3)
  have "list_all piece_ok (map blank_piece g)" if "list_all piece_ok g" for g
    using that
  proof (induction g)
    case Nil
    show ?case by simp
  next
    case (Cons p g)
    then show ?case by (cases p) (auto simp: is_line_end_def is_json_space_def)
  qed
  then show "entry_ok e \<Longrightarrow> entry_ok (without_comments e)"
    by (simp add: Entry)
qed

lemma trailing_comma_wrong_start: "c \<noteq> CHR '','' \<Longrightarrow> trailing_comma (c # cs) = None"
  by (simp add: trailing_comma_def)

lemma commas_plain:
  "CHR '','' \<notin> set s \<Longrightarrow> replace_all trailing_comma (s @ rest) = s @ replace_all trailing_comma rest"
  by (rule replace_all_skip_chars) (auto intro: trailing_comma_wrong_start)

lemma key_text_start:
  assumes "k \<noteq> []" and "list_all is_word k"
  shows "\<exists>c tail. key_text kq k = c # tail \<and> (is_quote c \<or> is_word c)"
proof (cases kq)
  case None
  with assms show ?thesis by (cases k) auto
next
  case (Some q)
  then show ?thesis by (cases q) (auto simp: is_quote_def)
qed

lemma quote_or_word_not:
  assumes "is_quote c \<or> is_word c"
  shows "\<not> is_space c" "c \<noteq> CHR ''}''" "c \<noteq> CHR '']''" "c \<noteq> CHR '',''"
  using assms word_not_space [of c] not_word
  by (auto simp: is_quote_def is_space_def)

lemma key_text_no_comma:
  assumes "list_all is_word k"
  shows "CHR '','' \<notin> set (key_text kq k)"
proof -
  from assms have "CHR '','' \<notin> set k"
    using not_word(3) by (auto simp: list_all_iff)
  then show ?thesis
    by (cases kq; cases "the kq") auto
qed

lemma value_text_no_comma: "list_all value_char v \<Longrightarrow> CHR '','' \<notin> set (value_text vq v)"
  by (cases vq) (auto simp: list_all_iff value_char_def value_text_def)

lemma spaces_no_comma: "list_all is_json_space w \<Longrightarrow> CHR '','' \<notin> set w"
  using json_space_not(1) by (auto simp: list_all_iff)

lemma entry_text_no_comma:
  assumes "entry_ok e" and "entry_blank e"
  shows "CHR '','' \<notin> set (entry_text e)"
proof (cases e)
  case (Entry g1 kq k g2 vq v g3)
  with assms show ?thesis
    using key_text_no_comma [of k kq] value_text_no_comma [of v vq]
      spaces_no_comma [OF blank_gap_spaces [of g1]] spaces_no_comma [OF blank_gap_spaces [of g2]]
      spaces_no_comma [OF blank_gap_spaces [of g3]]
    by simp
qed

lemma entry_text_start:
  assumes "entry_ok e" and "entry_blank e"
  shows "\<exists>w c tail. entry_text e = w @ c # tail \<and> list_all is_json_space w \<and>
           (is_quote c \<or> is_word c)"
proof (cases e)
  case (Entry g1 kq k g2 vq v g3)
  with assms have k: "k \<noteq> []" "list_all is_word k" and g1: "list_all is_blank g1"
    by simp_all
  from key_text_start [OF k, of kq] obtain c tail where
    c: "key_text kq k = c # tail" "is_quote c \<or> is_word c"
    by (elim exE conjE)
  have "entry_text e = gap_text g1 @ c # (tail @ '':'' @ gap_text g2 @ value_text vq v @ gap_text g3)"
    by (simp add: Entry c(1))
  with blank_gap_spaces [OF g1] c(2) show ?thesis
    by (intro exI conjI)
qed

lemma body_text_start:
  "\<exists>tail. body_text (e # es) t = entry_text e @ tail"
  by (cases es) simp_all

lemma commas_separator:
  assumes "list_all is_json_space w" and "is_quote c \<or> is_word c"
  shows "replace_all trailing_comma ('','' @ w @ c # tail) =
         '','' @ replace_all trailing_comma (w @ c # tail)"
proof -
  have "dropWhile is_space (w @ c # tail) = c # tail"
    using assms quote_or_word_not(1) [OF assms(2)]
    by (simp add: dropWhile_append3 list_all_iff json_space_is_space)
  then have "trailing_comma (CHR '','' # w @ c # tail) = None"
    using quote_or_word_not(2,3) [OF assms(2)] by (simp add: trailing_comma_def)
  then show ?thesis by simp
qed

lemma commas_trailing:
  assumes "list_all is_json_space w"
  shows "replace_all trailing_comma ('','' @ w @ CHR ''}'' # rest) =
         w @ CHR ''}'' # replace_all trailing_comma rest"
proof -
  have sp: "\<forall>c \<in> set w. is_space c"
    using assms by (auto simp: list_all_iff json_space_is_space)
  have "\<not> is_space CHR ''}''"
    by (simp add: is_space_def)
  with sp have "dropWhile is_space (w @ CHR ''}'' # rest) = CHR ''}'' # rest"
    and "takeWhile is_space (w @ CHR ''}'' # rest) = w"
    by (simp_all add: dropWhile_append3 takeWhile_tail)
  then have "trailing_comma (CHR '','' # w @ CHR ''}'' # rest) = Some (w @ [CHR ''}''], rest)"
    by (simp add: trailing_comma_def)
  then have "replace_all trailing_comma (CHR '','' # w @ CHR ''}'' # rest) =
      (w @ [CHR ''}'']) @ replace_all trailing_comma rest"
    by (rule replace_all_hit) simp
  then show ?thesis by simp
qed

lemma commas_body:
  assumes "list_all is_json_space w"
  shows "list_all entry_ok es \<Longrightarrow> list_all entry_blank es \<Longrightarrow>
         replace_all trailing_comma (body_text es t @ w @ CHR ''}'' # rest) =
           body_text es False @ w @ CHR ''}'' # replace_all trailing_comma rest"
proof (induction es t rule: body_text.induct)
  case (1 t)
  have "CHR '','' \<notin> set (w @ ''}'')"
    using spaces_no_comma [OF assms] by simp
  from commas_plain [OF this, of rest] show ?case by simp
next
  case (2 e t)
  then have e: "CHR '','' \<notin> set (entry_text e)"
    by (simp add: entry_text_no_comma)
  have w: "CHR '','' \<notin> set (w @ ''}'')"
    using spaces_no_comma [OF assms] by simp
  show ?case
  proof (cases t)
    case True
    have "replace_all trailing_comma (entry_text e @ '','' @ w @ CHR ''}'' # rest) =
          entry_text e @ replace_all trailing_comma ('','' @ w @ CHR ''}'' # rest)"
      by (rule commas_plain [OF e])
    with commas_trailing [OF assms, of rest] True show ?thesis by simp
  next
    case False
    have "replace_all trailing_comma (entry_text e @ (w @ ''}'') @ rest) =
          entry_text e @ replace_all trailing_comma ((w @ ''}'') @ rest)"
      by (rule commas_plain [OF e])
    with commas_plain [OF w, of rest] False show ?thesis by simp
  qed
next
  case (3 e e' es t)
  then have e: "CHR '','' \<notin> set (entry_text e)" and e': "entry_ok e'" "entry_blank e'"
    and IH: "replace_all trailing_comma (body_text (e' # es) t @ w @ CHR ''}'' # rest) =
           body_text (e' # es) False @ w @ CHR ''}'' # replace_all trailing_comma rest"
    by (simp_all add: entry_text_no_comma)
  from entry_text_start [OF e'] obtain w' c tail where
    st: "entry_text e' = w' @ c # tail" "list_all is_json_space w'" "is_quote c \<or> is_word c"
    by (elim exE conjE)
  from body_text_start [of e' es t] obtain tail' where
    bt: "body_text (e' # es) t = entry_text e' @ tail'"
    by (elim exE)
  let ?next = "body_text (e' # es) t @ w @ CHR ''}'' # rest"
  have nx: "?next = w' @ c # (tail @ tail' @ w @ CHR ''}'' # rest)"
    by (simp add: bt st(1))
  have "replace_all trailing_comma (body_text (e # e' # es) t @ w @ CHR ''}'' # rest) =
        replace_all trailing_comma (entry_text e @ '','' @ ?next)"
    by simp
  also have "\<dots> = entry_text e @ replace_all trailing_comma ('','' @ ?next)"
    by (rule commas_plain [OF e])
  also have "replace_all trailing_comma ('','' @ ?next) = '','' @ replace_all trailing_comma ?next"
    unfolding nx by (rule commas_separator [OF st(2,3)])
  finally show ?case
    using IH by simp
qed

lemma commas_literal:
  assumes "list_all entry_ok es" and "list_all entry_blank es" and "list_all is_blank g"
  shows "replace_all trailing_comma (literal_text es t g) = literal_text es False g"
proof -
  have "replace_all trailing_comma (''{'' @ body_text es t @ gap_text g @ CHR ''}'' # []) =
        ''{'' @ replace_all trailing_comma (body_text es t @ gap_text g @ CHR ''}'' # [])"
    by (rule commas_plain) simp
  also have "replace_all trailing_comma (body_text es t @ gap_text g @ CHR ''}'' # []) =
      body_text es False @ gap_text g @ CHR ''}'' # replace_all trailing_comma []"
    by (rule commas_body [OF blank_gap_spaces [OF assms(3)] assms(1,2)])
  finally show ?thesis
    by (simp add: literal_text_def)
qed


text \<open>Keys.\<close>

lemma word_not_quote: "is_word c \<Longrightarrow> \<not> is_quote c"
  using not_word(4,5) by (auto simp: is_quote_def)

lemma bare_key_stop: "\<not> is_quote c \<Longrightarrow> \<not> is_word c \<Longrightarrow> bare_key (c # cs) = None"
  by (simp add: bare_key_def word_then_colon_def)

lemma keys_plain:
  "\<forall>c \<in> set s. \<not> is_quote c \<and> \<not> is_word c \<Longrightarrow>
   replace_all bare_key (s @ rest) = s @ replace_all bare_key rest"
  by (rule replace_all_skip_chars) (auto intro: bare_key_stop)

lemma word_then_colon_key:
  assumes "k \<noteq> []" and "list_all is_word k"
  shows "word_then_colon (k @ CHR '':'' # rest) = Some (CHR 0x22 # k @ [CHR 0x22, CHR '':''], rest)"
    and "is_quote q \<Longrightarrow>
         word_then_colon (k @ q # CHR '':'' # rest) = Some (CHR 0x22 # k @ [CHR 0x22, CHR '':''], rest)"
proof -
  have k: "\<forall>c \<in> set k. is_word c"
    using assms(2) by (simp add: list_all_iff)
  have "takeWhile is_word (k @ CHR '':'' # rest) = k"
    and "dropWhile is_word (k @ CHR '':'' # rest) = CHR '':'' # rest"
    using k not_word(2) by (simp_all add: takeWhile_tail dropWhile_append3)
  then show "word_then_colon (k @ CHR '':'' # rest) =
      Some (CHR 0x22 # k @ [CHR 0x22, CHR '':''], rest)"
    using assms(1) by (simp add: word_then_colon_def is_quote_def)
  assume q: "is_quote q"
  then have "\<not> is_word q"
    using word_not_quote by blast
  then have "takeWhile is_word (k @ q # CHR '':'' # rest) = k"
    and "dropWhile is_word (k @ q # CHR '':'' # rest) = q # CHR '':'' # rest"
    using k by (simp_all add: takeWhile_tail dropWhile_append3)
  then show "word_then_colon (k @ q # CHR '':'' # rest) =
      Some (CHR 0x22 # k @ [CHR 0x22, CHR '':''], rest)"
    using assms(1) q by (simp add: word_then_colon_def)
qed

lemma keys_key:
  assumes "k \<noteq> []" and "list_all is_word k"
  shows "replace_all bare_key (key_text kq k @ CHR '':'' # rest) =
         key_text (Some Double) k @ CHR '':'' # replace_all bare_key rest"
proof (cases kq)
  case None
  from assms obtain a k' where k: "k = a # k'" "is_word a"
    by (cases k) auto
  then have "bare_key (a # k' @ CHR '':'' # rest) = word_then_colon (k @ CHR '':'' # rest)"
    by (simp add: bare_key_def word_not_quote)
  with word_then_colon_key(1) [OF assms, of rest]
  have "bare_key (a # k' @ CHR '':'' # rest) = Some (CHR 0x22 # k @ [CHR 0x22, CHR '':''], rest)"
    by simp
  then have "replace_all bare_key (a # k' @ CHR '':'' # rest) =
      (CHR 0x22 # k @ [CHR 0x22, CHR '':'']) @ replace_all bare_key rest"
    by (rule replace_all_hit) simp
  then show ?thesis
    by (simp add: None k(1))
next
  case (Some q)
  have q: "is_quote (quote_char q)"
    by (cases q) (simp_all add: is_quote_def)
  then have "bare_key (quote_char q # k @ quote_char q # CHR '':'' # rest) =
      word_then_colon (k @ quote_char q # CHR '':'' # rest)"
    by (simp add: bare_key_def)
  with word_then_colon_key(2) [OF assms q, of rest]
  have "bare_key (quote_char q # k @ quote_char q # CHR '':'' # rest) =
      Some (CHR 0x22 # k @ [CHR 0x22, CHR '':''], rest)"
    by simp
  then have "replace_all bare_key (quote_char q # k @ quote_char q # CHR '':'' # rest) =
      (CHR 0x22 # k @ [CHR 0x22, CHR '':'']) @ replace_all bare_key rest"
    by (rule replace_all_hit) simp
  then show ?thesis
    by (simp add: Some)
qed

lemma value_char_not:
  assumes "value_char c"
  shows "\<not> is_quote c" "c \<noteq> CHR '':''" "c \<noteq> CHR 0x27" "c \<noteq> CHR 0x22" "c \<noteq> CHR 0x5C"
    "\<not> (of_char c :: nat) < 32"
  using assms by (auto simp: value_char_def is_quote_def)

lemma word_then_colon_value:
  assumes "list_all value_char v" and "is_quote q" and "c \<noteq> CHR '':''"
  shows "word_then_colon (v @ q # c # rest) = None"
proof (cases "dropWhile is_word v")
  case Nil
  then have all: "\<forall>x \<in> set v. is_word x"
    by (simp add: dropWhile_eq_Nil_conv)
  have "\<not> is_word q"
    using assms(2) word_not_quote by blast
  with all have "takeWhile is_word (v @ q # c # rest) = v"
    and "dropWhile is_word (v @ q # c # rest) = q # c # rest"
    by (simp_all add: takeWhile_tail dropWhile_append3)
  then show ?thesis
    using assms(2,3) by (simp add: word_then_colon_def Let_def)
next
  case (Cons b v2)
  then have b: "\<not> is_word b" "b \<in> set v"
    by (metis hd_dropWhile list.distinct(1) list.sel(1),
        metis list.set_intros(1) set_dropWhileD)
  then have ex: "\<exists>x \<in> set v. \<not> is_word x" by blast
  from b(2) assms(1) have "value_char b"
    by (simp add: list_all_iff)
  then have vb: "\<not> is_quote b" "b \<noteq> CHR '':''"
    by (rule value_char_not)+
  have "dropWhile is_word (v @ q # c # rest) = b # v2 @ q # c # rest"
    using dropWhile_append1 [of b v is_word, OF b(2) b(1)] Cons by simp
  then show ?thesis
    using vb by (simp add: word_then_colon_def Let_def)
qed

lemma bare_key_in_value:
  assumes "list_all value_char v" and "is_quote q" and "\<not> is_word c" and "c \<noteq> CHR '':''"
  shows "bare_key (v @ q # c # rest) = None"
proof (cases v)
  case Nil
  with assms show ?thesis
    by (simp add: bare_key_def word_then_colon_def)
next
  case (Cons a v')
  with assms(1) have "\<not> is_quote a"
    using value_char_not(1) by simp
  then have "bare_key (v @ q # c # rest) = word_then_colon (v @ q # c # rest)"
    by (simp add: bare_key_def Cons)
  with word_then_colon_value [OF assms(1,2,4)] show ?thesis by simp
qed

lemma keys_value:
  assumes "list_all value_char v" and "\<not> is_word c" and "c \<noteq> CHR '':''"
  shows "replace_all bare_key (value_text vq v @ c # rest) =
         value_text vq v @ replace_all bare_key (c # rest)"
proof (rule replace_all_skip)
  have q: "is_quote (quote_char vq)"
    by (cases vq) (simp_all add: is_quote_def)
  fix i assume i: "i < length (value_text vq v)"
  show "bare_key (drop i (value_text vq v) @ c # rest) = None"
  proof (cases i)
    case 0
    have "bare_key (quote_char vq # v @ quote_char vq # c # rest) =
        word_then_colon (v @ quote_char vq # c # rest)"
      using q by (simp add: bare_key_def)
    with word_then_colon_value [OF assms(1) q assms(3)] show ?thesis
      by (simp add: 0 value_text_def)
  next
    case (Suc j)
    with i have j: "j \<le> length v"
      by (simp add: value_text_def)
    have "list_all value_char (drop j v)"
      using assms(1) by (auto simp: list_all_iff dest: in_set_dropD)
    from bare_key_in_value [OF this q assms(2,3)] j show ?thesis
      by (simp add: Suc value_text_def)
  qed
qed

lemma spaces_plain_for_keys:
  "list_all is_json_space w \<Longrightarrow> \<forall>c \<in> set w. \<not> is_quote c \<and> \<not> is_word c"
  using json_space_not(3,4) by (auto simp: list_all_iff)

lemma keys_entry:
  assumes "entry_ok e" and "entry_blank e"
    and "c = CHR '','' \<or> c = CHR ''}'' \<or> is_json_space c"
  shows "replace_all bare_key (entry_text e @ c # rest) =
         entry_text (with_double_key e) @ replace_all bare_key (c # rest)"
proof -
  obtain g1 kq k g2 vq v g3 where e: "e = Entry g1 kq k g2 vq v g3"
    by (cases e)
  from assms(1,2) have k: "k \<noteq> []" "list_all is_word k" and v: "list_all value_char v"
    and g: "list_all is_json_space (gap_text g1)" "list_all is_json_space (gap_text g2)"
      "list_all is_json_space (gap_text g3)"
    by (simp_all add: e blank_gap_spaces)
  have c: "\<not> is_word c" "c \<noteq> CHR '':''"
    using assms(3) not_word(3,7) json_space_not(3,7) by auto
  obtain c' rest' where nx: "gap_text g3 @ c # rest = c' # rest'" "\<not> is_word c'" "c' \<noteq> CHR '':''"
  proof (cases "gap_text g3")
    case Nil
    with c that show ?thesis by simp
  next
    case (Cons a w)
    with g(3) have "is_json_space a" by simp
    with that [of a "w @ c # rest"] Cons json_space_not(3,7) show ?thesis by simp
  qed
  have "replace_all bare_key (entry_text e @ c # rest) =
        replace_all bare_key (gap_text g1 @ key_text kq k @ CHR '':'' # gap_text g2 @
          value_text vq v @ gap_text g3 @ c # rest)"
    by (simp add: e)
  also have "\<dots> = gap_text g1 @ replace_all bare_key (key_text kq k @ CHR '':'' # gap_text g2 @
          value_text vq v @ gap_text g3 @ c # rest)"
    by (rule keys_plain [OF spaces_plain_for_keys [OF g(1)]])
  also have "replace_all bare_key (key_text kq k @ CHR '':'' # gap_text g2 @
          value_text vq v @ gap_text g3 @ c # rest) =
      key_text (Some Double) k @ CHR '':'' # replace_all bare_key (gap_text g2 @
          value_text vq v @ gap_text g3 @ c # rest)"
    by (rule keys_key [OF k])
  also have "replace_all bare_key (gap_text g2 @ value_text vq v @ gap_text g3 @ c # rest) =
      gap_text g2 @ replace_all bare_key (value_text vq v @ gap_text g3 @ c # rest)"
    by (rule keys_plain [OF spaces_plain_for_keys [OF g(2)]])
  also have "replace_all bare_key (value_text vq v @ gap_text g3 @ c # rest) =
      value_text vq v @ replace_all bare_key (gap_text g3 @ c # rest)"
    unfolding nx(1) by (rule keys_value [OF v nx(2,3)])
  also have "replace_all bare_key (gap_text g3 @ c # rest) =
      gap_text g3 @ replace_all bare_key (c # rest)"
    by (rule keys_plain [OF spaces_plain_for_keys [OF g(3)]])
  finally show ?thesis
    by (simp add: e)
qed

lemma keys_body:
  assumes "list_all is_json_space w"
  shows "list_all entry_ok es \<Longrightarrow> list_all entry_blank es \<Longrightarrow>
         replace_all bare_key (body_text es False @ w @ CHR ''}'' # rest) =
           body_text (map with_double_key es) False @ w @ CHR ''}'' # replace_all bare_key rest"
proof (induction es "False" rule: body_text.induct)
  case 1
  have "\<forall>c \<in> set (w @ ''}''). \<not> is_quote c \<and> \<not> is_word c"
    using spaces_plain_for_keys [OF assms] not_word(7) by (auto simp: is_quote_def)
  from keys_plain [OF this, of rest] show ?case by simp
next
  case (2 e)
  then have e: "entry_ok e" "entry_blank e" by simp_all
  have tail: "\<forall>c \<in> set (w @ ''}''). \<not> is_quote c \<and> \<not> is_word c"
    using spaces_plain_for_keys [OF assms] not_word(7) by (auto simp: is_quote_def)
  obtain c rest' where nx: "w @ CHR ''}'' # rest = c # rest'"
    "c = CHR '','' \<or> c = CHR ''}'' \<or> is_json_space c"
  proof (cases w)
    case Nil
    with that show ?thesis by simp
  next
    case (Cons a w')
    with assms have "is_json_space a" by simp
    with that [of a "w' @ CHR ''}'' # rest"] Cons show ?thesis by simp
  qed
  have "replace_all bare_key (entry_text e @ w @ CHR ''}'' # rest) =
      entry_text (with_double_key e) @ replace_all bare_key (w @ CHR ''}'' # rest)"
    unfolding nx(1) by (rule keys_entry [OF e nx(2)])
  with keys_plain [OF tail, of rest] show ?case by simp
next
  case (3 e e' es)
  then have e: "entry_ok e" "entry_blank e"
    and IH: "replace_all bare_key (body_text (e' # es) False @ w @ CHR ''}'' # rest) =
           body_text (map with_double_key (e' # es)) False @ w @ CHR ''}'' #
           replace_all bare_key rest"
    by simp_all
  let ?next = "body_text (e' # es) False @ w @ CHR ''}'' # rest"
  have "replace_all bare_key (body_text (e # e' # es) False @ w @ CHR ''}'' # rest) =
        replace_all bare_key (entry_text e @ CHR '','' # ?next)"
    by simp
  also have "\<dots> = entry_text (with_double_key e) @ replace_all bare_key (CHR '','' # ?next)"
    by (rule keys_entry [OF e]) simp
  also have "replace_all bare_key (CHR '','' # ?next) = CHR '','' # replace_all bare_key ?next"
    using keys_plain [of "'',''" ?next] by (simp add: is_quote_def not_word)
  finally show ?case
    using IH by simp
qed

lemma keys_literal:
  assumes "list_all entry_ok es" and "list_all entry_blank es" and "list_all is_blank g"
  shows "replace_all bare_key (literal_text es False g) =
         literal_text (map with_double_key es) False g"
proof -
  have "replace_all bare_key (''{'' @ body_text es False @ gap_text g @ CHR ''}'' # []) =
        ''{'' @ replace_all bare_key (body_text es False @ gap_text g @ CHR ''}'' # [])"
    by (rule keys_plain) (simp add: is_quote_def not_word)
  also have "replace_all bare_key (body_text es False @ gap_text g @ CHR ''}'' # []) =
      body_text (map with_double_key es) False @ gap_text g @ CHR ''}'' # replace_all bare_key []"
    by (rule keys_body [OF blank_gap_spaces [OF assms(3)] assms(1,2)])
  finally show ?thesis
    by (simp add: literal_text_def)
qed


text \<open>Quotes.\<close>

lemma quotes_id:
  "CHR 0x27 \<notin> set s \<Longrightarrow> map (\<lambda>c. if c = CHR 0x27 then CHR 0x22 else c) s = s"
  by (induction s) auto

lemma spaces_no_single_quote: "list_all is_json_space w \<Longrightarrow> CHR 0x27 \<notin> set w"
  using json_space_not(8) by (auto simp: list_all_iff)

lemma quotes_entry:
  assumes "entry_ok e" and "entry_blank e"
  shows "map (\<lambda>c. if c = CHR 0x27 then CHR 0x22 else c) (entry_text (with_double_key e)) =
         entry_text (with_double_value (with_double_key e))"
proof -
  obtain g1 kq k g2 vq v g3 where e: "e = Entry g1 kq k g2 vq v g3"
    by (cases e)
  from assms have "list_all is_word k" and v: "list_all value_char v"
    and g: "list_all is_json_space (gap_text g1)" "list_all is_json_space (gap_text g2)"
      "list_all is_json_space (gap_text g3)"
    by (simp_all add: e blank_gap_spaces)
  then have k: "CHR 0x27 \<notin> set k"
    using not_word(4) by (auto simp: list_all_iff)
  from v have v': "CHR 0x27 \<notin> set v"
    using value_char_not(3) by (auto simp: list_all_iff)
  have "map (\<lambda>c. if c = CHR 0x27 then CHR 0x22 else c) (value_text vq v) = value_text Double v"
    by (cases vq) (simp_all add: value_text_def quotes_id [OF v'])
  then show ?thesis
    by (simp add: e quotes_id [OF k] quotes_id [OF spaces_no_single_quote [OF g(1)]]
        quotes_id [OF spaces_no_single_quote [OF g(2)]]
        quotes_id [OF spaces_no_single_quote [OF g(3)]])
qed

lemma quotes_body:
  "list_all entry_ok es \<Longrightarrow> list_all entry_blank es \<Longrightarrow>
   map (\<lambda>c. if c = CHR 0x27 then CHR 0x22 else c) (body_text (map with_double_key es) False) =
     body_text (map (with_double_value \<circ> with_double_key) es) False"
proof (induction es "False" rule: body_text.induct)
  case 1
  show ?case by simp
next
  case (2 e)
  then show ?case by (simp add: quotes_entry)
next
  case (3 e e' es)
  then show ?case by (simp add: quotes_entry)
qed

lemma quotes_literal:
  assumes "list_all entry_ok es" and "list_all entry_blank es" and "list_all is_blank g"
  shows "map (\<lambda>c. if c = CHR 0x27 then CHR 0x22 else c) (literal_text (map with_double_key es) False g) =
         literal_text (map (with_double_value \<circ> with_double_key) es) False g"
  using quotes_body [OF assms(1,2)]
    quotes_id [OF spaces_no_single_quote [OF blank_gap_spaces [OF assms(3)]]]
  by (simp add: literal_text_def)

lemma to_json_text_literal:
  assumes "list_all entry_ok es" and "list_all piece_ok g"
  shows "to_json_text (literal_text es t g) =
         literal_text (map (with_double_value \<circ> with_double_key \<circ> without_comments) es) False
           (map blank_piece g)"
proof -
  let ?es = "map without_comments es" and ?g = "map blank_piece g"
  have ok: "list_all entry_ok ?es" and blank: "list_all entry_blank ?es"
    using assms(1)
    by (auto simp: list_all_iff entry_ok_after_comments entry_blank_after_comments)
  have g: "list_all is_blank ?g"
    by (rule blank_after_comments [OF assms(2)])
  have "to_json_text (literal_text es t g) =
        map (\<lambda>c. if c = CHR 0x27 then CHR 0x22 else c)
          (replace_all bare_key (replace_all trailing_comma (literal_text ?es t ?g)))"
    by (simp only: to_json_text_def comments_literal [OF assms])
  also have "\<dots> = map (\<lambda>c. if c = CHR 0x27 then CHR 0x22 else c)
      (literal_text (map with_double_key ?es) False ?g)"
    by (simp only: commas_literal [OF ok blank g] keys_literal [OF ok blank g])
  also have "\<dots> = literal_text (map (with_double_value \<circ> with_double_key) ?es) False ?g"
    by (rule quotes_literal [OF ok blank g])
  finally show ?thesis
    by (simp add: comp_def)
qed


subsection \<open>JSON.parse on the normalized literal\<close>

lemma word_is_value_char: "is_word c \<Longrightarrow> value_char c"
  by (auto simp: is_word_def value_char_def)

lemma json_spaces_before_key:
  "list_all is_json_space w \<Longrightarrow> st = Opened \<or> st = AfterComma \<Longrightarrow>
   json_run st ms (w @ rest) = json_run st ms rest"
  by (induction w) auto

lemma json_spaces_before_value:
  "list_all is_json_space w \<Longrightarrow> json_run (BeforeValue k) ms (w @ rest) = json_run (BeforeValue k) ms rest"
  by (induction w) auto

lemma json_spaces_after_value:
  "list_all is_json_space w \<Longrightarrow> json_run AfterValue ms (w @ rest) = json_run AfterValue ms rest"
  by (induction w) auto

lemma json_key_chars:
  "list_all value_char k \<Longrightarrow>
   json_run (InKey a) ms (k @ CHR 0x22 # rest) = json_run (AfterKey (a @ k)) ms rest"
proof (induction k arbitrary: a)
  case Nil
  show ?case by simp
next
  case (Cons c k)
  then have "value_char c" and IH: "json_run (InKey (a @ [c])) ms (k @ CHR 0x22 # rest) =
      json_run (AfterKey ((a @ [c]) @ k)) ms rest"
    by simp_all
  with value_char_not(4,5,6) [of c] show ?case by simp
qed

lemma json_value_chars:
  "list_all value_char v \<Longrightarrow>
   json_run (InValue k a) ms (v @ CHR 0x22 # rest) = json_run AfterValue (ms @ [(k, a @ v)]) rest"
proof (induction v arbitrary: a)
  case Nil
  show ?case by simp
next
  case (Cons c v)
  then have "value_char c" and IH: "json_run (InValue k (a @ [c])) ms (v @ CHR 0x22 # rest) =
      json_run AfterValue (ms @ [(k, (a @ [c]) @ v)]) rest"
    by simp_all
  with value_char_not(4,5,6) [of c] show ?case by simp
qed

lemma json_entry:
  assumes "entry_ok e" and "entry_blank e" and "st = Opened \<or> st = AfterComma"
  shows "json_run st ms (entry_text (with_double_value (with_double_key e)) @ rest) =
         json_run AfterValue (ms @ [entry_pair e]) rest"
proof -
  obtain g1 kq k g2 vq v g3 where e: "e = Entry g1 kq k g2 vq v g3"
    by (cases e)
  from assms(1,2) have v: "list_all value_char v"
    and g: "list_all is_json_space (gap_text g1)" "list_all is_json_space (gap_text g2)"
      "list_all is_json_space (gap_text g3)"
    by (simp_all add: e blank_gap_spaces)
  from assms(1) have k: "list_all value_char k"
    by (auto simp: e list_all_iff word_is_value_char)
  have "json_run st ms (entry_text (with_double_value (with_double_key e)) @ rest) =
        json_run st ms (gap_text g1 @ CHR 0x22 # k @ CHR 0x22 # CHR '':'' # gap_text g2 @
          CHR 0x22 # v @ CHR 0x22 # gap_text g3 @ rest)"
    by (simp add: e value_text_def)
  also have "\<dots> = json_run st ms (CHR 0x22 # k @ CHR 0x22 # CHR '':'' # gap_text g2 @
          CHR 0x22 # v @ CHR 0x22 # gap_text g3 @ rest)"
    by (rule json_spaces_before_key [OF g(1) assms(3)])
  also have "\<dots> = json_run (InKey []) ms (k @ CHR 0x22 # CHR '':'' # gap_text g2 @
          CHR 0x22 # v @ CHR 0x22 # gap_text g3 @ rest)"
    using assms(3) by (auto simp: is_json_space_def)
  also have "\<dots> = json_run (AfterKey k) ms (CHR '':'' # gap_text g2 @
          CHR 0x22 # v @ CHR 0x22 # gap_text g3 @ rest)"
    using json_key_chars [OF k, of "[]"] by simp
  also have "\<dots> = json_run (BeforeValue k) ms (gap_text g2 @
          CHR 0x22 # v @ CHR 0x22 # gap_text g3 @ rest)"
    by (simp add: is_json_space_def)
  also have "\<dots> = json_run (BeforeValue k) ms (CHR 0x22 # v @ CHR 0x22 # gap_text g3 @ rest)"
    by (rule json_spaces_before_value [OF g(2)])
  also have "\<dots> = json_run (InValue k []) ms (v @ CHR 0x22 # gap_text g3 @ rest)"
    by (simp add: is_json_space_def)
  also have "\<dots> = json_run AfterValue (ms @ [(k, v)]) (gap_text g3 @ rest)"
    using json_value_chars [OF v, of k "[]"] by simp
  also have "\<dots> = json_run AfterValue (ms @ [(k, v)]) rest"
    by (rule json_spaces_after_value [OF g(3)])
  finally show ?thesis
    by (simp add: e)
qed

lemma json_body:
  "list_all entry_ok es \<Longrightarrow> list_all entry_blank es \<Longrightarrow> es \<noteq> [] \<Longrightarrow>
   st = Opened \<or> st = AfterComma \<Longrightarrow>
   json_run st ms (body_text (map (with_double_value \<circ> with_double_key) es) False @ rest) =
     json_run AfterValue (ms @ map entry_pair es) rest"
proof (induction es "False" arbitrary: st ms rule: body_text.induct)
  case 1
  then show ?case by simp
next
  case (2 e)
  then show ?case by (simp add: json_entry)
next
  case (3 e e' es)
  then have e: "entry_ok e" "entry_blank e"
    and rest: "list_all entry_ok (e' # es)" "list_all entry_blank (e' # es)"
    by simp_all
  let ?f = "with_double_value \<circ> with_double_key"
  have "json_run st ms (body_text (map ?f (e # e' # es)) False @ rest) =
        json_run st ms (entry_text (with_double_value (with_double_key e)) @
          CHR '','' # body_text (map ?f (e' # es)) False @ rest)"
    by simp
  also have "\<dots> = json_run AfterValue (ms @ [entry_pair e])
      (CHR '','' # body_text (map ?f (e' # es)) False @ rest)"
    by (rule json_entry [OF e "3.prems"(4)])
  also have "\<dots> = json_run AfterComma (ms @ [entry_pair e])
      (body_text (map ?f (e' # es)) False @ rest)"
    by (simp add: is_json_space_def)
  also have "\<dots> = json_run AfterValue ((ms @ [entry_pair e]) @ map entry_pair (e' # es)) rest"
    by (rule "3.hyps" [OF rest]) simp_all
  finally show ?case by simp
qed

lemma json_literal:
  assumes "list_all entry_ok es" and "list_all entry_blank es" and "list_all is_blank g"
  shows "json_run Start [] (literal_text (map (with_double_value \<circ> with_double_key) es) False g) =
         Returns (map entry_pair es)"
proof -
  let ?f = "with_double_value \<circ> with_double_key"
  have w: "list_all is_json_space (gap_text g)"
    by (rule blank_gap_spaces [OF assms(3)])
  have start: "json_run Start [] (literal_text (map ?f es) False g) =
      json_run Opened [] (body_text (map ?f es) False @ gap_text g @ ''}'')"
    by (simp add: literal_text_def is_json_space_def)
  show ?thesis
  proof (cases es)
    case Nil
    have "json_run Opened [] (gap_text g @ ''}'') = json_run Opened [] ''}''"
      by (rule json_spaces_before_key [OF w]) simp
    with start Nil show ?thesis
      by (simp add: is_json_space_def)
  next
    case (Cons e es')
    then have "es \<noteq> []" by simp
    from json_body [OF assms(1,2) this, of Opened "[]" "gap_text g @ ''}''"]
    have "json_run Opened [] (body_text (map ?f es) False @ gap_text g @ ''}'') =
        json_run AfterValue (map entry_pair es) (gap_text g @ ''}'')"
      by simp
    also have "\<dots> = json_run AfterValue (map entry_pair es) ''}''"
      by (rule json_spaces_after_value [OF w])
    finally show ?thesis
      using start by (simp add: is_json_space_def)
  qed
qed

lemma JSON_parse_literal:
  assumes "list_all entry_ok es" and "list_all entry_blank es" and "list_all is_blank g"
  shows "JSON_parse (literal_text (map (with_double_value \<circ> with_double_key) es) False g) =
         Returns (foldl (\<lambda>obj (k, v). AList.update k v obj) [] (map entry_pair es))"
  by (simp add: JSON_parse_def json_literal [OF assms])


lemma JSON_parse_document:
  assumes "list_all entry_ok es"
  shows "JSON_parse (json_document (map entry_pair es)) =
         Returns (foldl (\<lambda>obj (k, v). AList.update k v obj) [] (map entry_pair es))"
proof -
  let ?plain = "\<lambda>(k, v). Entry [] (Some Double) k [] Double v []"
  let ?es = "map ?plain (map entry_pair es)"
  have ok: "list_all entry_ok ?es" and blank: "list_all entry_blank ?es"
    using assms
  proof (induction es)
    case Nil
    case 1 show ?case by simp
    case 2 show ?case by simp
  next
    case (Cons e es)
    case 1 with Cons show ?case by (cases e) simp
    case 2 with Cons show ?case by (cases e) simp
  qed
  have same: "map (with_double_value \<circ> with_double_key) ?es = ?es"
    by (induction es) (auto split: prod.splits)
  have pairs: "map entry_pair ?es = map entry_pair es"
    by (induction es) (auto split: prod.splits)
  have none: "list_all is_blank []"
    by simp
  from JSON_parse_literal [OF ok blank none] show ?thesis
    by (simp only: same pairs json_document_def)
qed

subsection \<open>extractObject against direct parsing\<close>

text \<open>
  Claim C4 as stated fails on well-formed object literals outside the shape the
  replacements are written for. In \<open>{1 : 'ethereum'}\<close> a space stands between the key
  and its colon: the key pattern does not match, the key stays bare, \<open>JSON.parse\<close>
  rejects the text and extractObject gives the empty object, while the JSON document with
  the same pair parses to the one-pair mapping.
\<close>

theorem extractObject_spaced_colon_counterexample:
  \<open>extractObject ''{1 : 'ethereum'}'' = Returns [] \<and>
   json_document [(''1'', ''ethereum'')] = ''{"1":"ethereum"}'' \<and>
   JSON_parse (json_document [(''1'', ''ethereum'')]) = Returns [(''1'', ''ethereum'')]\<close>
  by (simp add: eval_chain json_document_def literal_text_def gap_text_def value_text_def)

text \<open>
  Claim C4, amended. Take a text whose only braces before and after belong to one object
  literal of this shape: entries separated by commas, with an optional comma after the
  last; each key a run of word characters, bare or in single or double quotes, with its
  colon right after it; each value in single or double quotes, made of characters other
  than quotes, backslash, slash, comma, colon and control characters; and between the
  tokens only JSON white space and line comments. Then extractObject gives what
  \<open>JSON.parse\<close> gives on the JSON document with the same pairs in the same order: the
  object with these pairs, a repeated key taking its last value.
\<close>

theorem extractObject_equals_direct_parse:
  assumes "CHR ''{'' \<notin> set pre" and "CHR ''}'' \<notin> set post"
    and "list_all entry_ok es" and "list_all piece_ok g"
  shows "extractObject (pre @ literal_text es t g @ post) =
           JSON_parse (json_document (map entry_pair es)) \<and>
         JSON_parse (json_document (map entry_pair es)) =
           Returns (foldl (\<lambda>obj (k, v). AList.update k v obj) [] (map entry_pair es))"
proof -
  let ?es = "map without_comments es" and ?g = "map blank_piece g"
  have ok: "list_all entry_ok ?es" and blank: "list_all entry_blank ?es"
    using assms(3)
    by (auto simp: list_all_iff entry_ok_after_comments entry_blank_after_comments)
  have g: "list_all is_blank ?g"
    by (rule blank_after_comments [OF assms(4)])
  have pairs: "map entry_pair ?es = map entry_pair es"
  proof (induction es)
    case Nil
    show ?case by simp
  next
    case (Cons e es)
    then show ?case by (cases e) simp
  qed
  have "to_json_text (literal_text es t g) =
      literal_text (map (with_double_value \<circ> with_double_key) ?es) False ?g"
    using to_json_text_literal [OF assms(3,4), of t] by (simp add: comp_def)
  then have "JSON_parse (to_json_text (literal_text es t g)) =
      Returns (foldl (\<lambda>obj (k, v). AList.update k v obj) [] (map entry_pair es))"
    using JSON_parse_literal [OF ok blank g] by (simp only: pairs)
  then have "extractObject (pre @ literal_text es t g @ post) =
      Returns (foldl (\<lambda>obj (k, v). AList.update k v obj) [] (map entry_pair es))"
    by (simp add: extractObject_slice [OF assms(1,2)])
  with JSON_parse_document [OF assms(3)] show ?thesis
    by simp
qed

text \<open>
  A text with a bare key, a quoted key, single and double quotes, a line comment and a
  trailing comma:
  \<^verbatim>\<open>export default {\<close> \<^verbatim>\<open>1: 'ethereum', // mainnet\<close> \<^verbatim>\<open>"10": "optimism",\<close> \<^verbatim>\<open>};\<close>
\<close>

theorem extractObject_equals_direct_parse_witness:
  \<open>''export default '' @
     literal_text
       [Entry [Blank CHR 0x0A, Blank CHR '' ''] None ''1'' [Blank CHR '' ''] Single ''ethereum'' [],
        Entry [Blank CHR '' '', LineComment '' mainnet'' CHR 0x0A, Blank CHR '' '']
          (Some Double) ''10'' [Blank CHR '' ''] Double ''optimism'' []]
       True [Blank CHR 0x0A] @ '';'' =
     ''export default {'' @ [CHR 0x0A] @ '' 1: 'ethereum', // mainnet'' @ [CHR 0x0A] @
     '' "10": "optimism",'' @ [CHR 0x0A] @ ''};'' \<and>
   extractObject
     (''export default {'' @ [CHR 0x0A] @ '' 1: 'ethereum', // mainnet'' @ [CHR 0x0A] @
      '' "10": "optimism",'' @ [CHR 0x0A] @ ''};'') =
     JSON_parse ''{"1":"ethereum","10":"optimism"}'' \<and>
   JSON_parse ''{"1":"ethereum","10":"optimism"}'' =
     Returns [(''1'', ''ethereum''), (''10'', ''optimism'')]\<close>
proof -
  let ?es = "[Entry [Blank CHR 0x0A, Blank CHR '' ''] None ''1'' [Blank CHR '' ''] Single ''ethereum'' [],
        Entry [Blank CHR '' '', LineComment '' mainnet'' CHR 0x0A, Blank CHR '' '']
          (Some Double) ''10'' [Blank CHR '' ''] Double ''optimism'' []]"
  let ?g = "[Blank CHR 0x0A]"
  have shape: \<open>''export default '' @ literal_text ?es True ?g @ '';'' =
     ''export default {'' @ [CHR 0x0A] @ '' 1: 'ethereum', // mainnet'' @ [CHR 0x0A] @
     '' "10": "optimism",'' @ [CHR 0x0A] @ ''};''\<close>
    by (simp add: literal_text_def gap_text_def value_text_def)
  have doc: \<open>json_document (map entry_pair ?es) = ''{"1":"ethereum","10":"optimism"}''\<close>
    by (simp add: json_document_def literal_text_def gap_text_def value_text_def)
  have pre: "CHR ''{'' \<notin> set ''export default ''" and post: "CHR ''}'' \<notin> set '';''"
    by simp_all
  have ok: "list_all entry_ok ?es"
    by (simp add: is_json_space_def is_line_end_def is_word_def value_char_def)
  have g: "list_all piece_ok ?g"
    by (simp add: is_json_space_def)
  from extractObject_equals_direct_parse [OF pre post ok g, of True] show ?thesis
    by (simp only: shape doc) (simp add: shape)
qed

end
